theory Spec2Isabelle
  imports Main "HOL-Library.AList" "HOL-Library.Sublist"
begin

section \<open>Python strings\<close>

text \<open>
  A Python \<open>str\<close> is a sequence of Unicode code points and \<open>len\<close> counts code points,
  so a string is modelled as a list of code points (natural numbers). ASCII literals of
  the source are written \<open>str ''...''\<close>; literals with Arabic letters are written as the
  list of their code points.
\<close>

type_synonym pystr = "nat list"

abbreviation str :: "string \<Rightarrow> pystr" where
  "str \<equiv> map of_char"

text \<open>
  \<open>str.isspace\<close>, \<open>str.strip()\<close> and the class \<open>\s\<close> of \<open>re\<close> on a \<open>str\<close> pattern all use
  the same table of Unicode whitespace.
\<close>

definition is_space :: "nat \<Rightarrow> bool" where
  "is_space c \<longleftrightarrow>
     (9 \<le> c \<and> c \<le> 13) \<or> (28 \<le> c \<and> c \<le> 32) \<or> c = 133 \<or> c = 160 \<or> c = 5760 \<or>
     (8192 \<le> c \<and> c \<le> 8202) \<or> c = 8232 \<or> c = 8233 \<or> c = 8239 \<or> c = 8287 \<or> c = 12288"

text \<open>\<open>s.strip()\<close>: whitespace removed at both ends.\<close>

definition strip :: "pystr \<Rightarrow> pystr" where
  "strip s = rev (dropWhile is_space (rev (dropWhile is_space s)))"

text \<open>
  \<open>s.lower()\<close> applies the case mapping of the Unicode tables of the Python runtime
  (with its rules for the capital sigma and for U+0130, which lower-cases to two code
  points). These tables are not part of the repository. Every function below that
  calls \<open>lower()\<close>, itself or through a function it calls, takes the mapping as its
  first parameter \<open>lower\<close>, so what is proved of it holds for the mapping of the runtime,
  whatever its table is.
\<close>

text \<open>
  \<open>s.replace(old, new)\<close>: the occurrences of \<open>old\<close> are replaced from left to right,
  without overlap. With an empty \<open>old\<close> Python puts \<open>new\<close> before every code point and
  at the end.
\<close>

function replace_from :: "pystr \<Rightarrow> pystr \<Rightarrow> pystr \<Rightarrow> pystr" where
  "replace_from old new [] = []"
| "replace_from old new (c # cs) =
     (if old \<noteq> [] \<and> prefix old (c # cs)
      then new @ replace_from old new (drop (length old) (c # cs))
      else c # replace_from old new cs)"
  by pat_completeness auto
termination
  by (relation "measure (\<lambda>(old, new, s). length s)") (auto simp: neq_Nil_conv)

definition replace :: "pystr \<Rightarrow> pystr \<Rightarrow> pystr \<Rightarrow> pystr" where
  "replace old new s =
     (if old = [] then new @ concat (map (\<lambda>c. c # new) s) else replace_from old new s)"

text \<open>\<open>sep.join(parts)\<close>.\<close>

fun join :: "pystr \<Rightarrow> pystr list \<Rightarrow> pystr" where
  "join sep [] = []"
| "join sep [p] = p"
| "join sep (p # q # ps) = p @ sep @ join sep (q # ps)"

text \<open>\<open>needle in haystack\<close> on strings: substring containment.\<close>

fun contains :: "pystr \<Rightarrow> pystr \<Rightarrow> bool" where
  "contains [] needle = (needle = [])"
| "contains (c # cs) needle = (prefix needle (c # cs) \<or> contains cs needle)"

text \<open>\<open>str(n)\<close> for an integer, as an f-string prints it.\<close>

fun str_nat :: "nat \<Rightarrow> pystr" where
  "str_nat n = (if n < 10 then [48 + n] else str_nat (n div 10) @ [48 + n mod 10])"

declare str_nat.simps [simp del]

definition str_int :: "int \<Rightarrow> pystr" where
  "str_int i = (if i < 0 then 45 # str_nat (nat (- i)) else str_nat (nat i))"

section \<open>The text normalizer (process\_texts.clean\_text)\<close>

text \<open>
  \<open>re.sub(r'\s+', ' ', text)\<close>: every maximal run of whitespace becomes one space.
\<close>

function collapse_ws :: "pystr \<Rightarrow> pystr" where
  "collapse_ws [] = []"
| "collapse_ws (c # cs) =
     (if is_space c then 32 # collapse_ws (dropWhile is_space cs) else c # collapse_ws cs)"
  by pat_completeness auto
termination
  by (relation "measure length") (auto simp: length_dropWhile_le less_Suc_eq_le)

text \<open>
  \<open>re.sub(r'<[^>]+>', '', text)\<close>. Scanning from the left, a match starts at a
  code point 60 (the opening angle bracket) that is followed by at least one code point
  other than 62 (the closing one) and then, after the longest such run, by a 62; the run
  may itself contain 60. A match is deleted and the scan goes on behind it; where nothing
  matches the code point is kept.
\<close>

function strip_tags :: "pystr \<Rightarrow> pystr" where
  "strip_tags [] = []"
| "strip_tags (c # cs) =
     (if c = 60 \<and> takeWhile (\<lambda>d. d \<noteq> 62) cs \<noteq> [] \<and> dropWhile (\<lambda>d. d \<noteq> 62) cs \<noteq> []
      then strip_tags (tl (dropWhile (\<lambda>d. d \<noteq> 62) cs))
      else c # strip_tags cs)"
  by pat_completeness auto
termination
proof (relation "measure length")
  show "wf (measure length)" by simp
next
  fix c :: nat and cs :: "nat list"
  have "length (dropWhile (\<lambda>d. d \<noteq> 62) cs) \<le> length cs"
    by (rule length_dropWhile_le)
  then have "length (tl (dropWhile (\<lambda>d. d \<noteq> 62) cs)) \<le> length cs"
    by simp
  then show "(tl (dropWhile (\<lambda>d. d \<noteq> 62) cs), c # cs) \<in> measure length"
    by simp
next
  fix c :: nat and cs :: "nat list"
  show "(cs, c # cs) \<in> measure length" by simp
qed

text \<open>
  The two lines of \<open>clean_text\<close> under the comment \<open># Normalize quotes\<close> hold straight
  ASCII quotes only. The first one, \<open>text.replace('"', '"').replace('"', '"')\<close>, replaces
  the double quote (34) by itself, twice. In the second one,
  \<open>text.replace(''', "'").replace(''', "'")\<close>, the three apostrophes open a triple-quoted
  literal that runs up to the next three apostrophes, so the line is one call of
  \<open>replace\<close> whose first argument is the fifteen code points \<open>, "'").replace(\<close> and
  whose second argument is the apostrophe.
\<close>

definition quote_old :: pystr where
  "quote_old = str '', '' @ [34, 39, 34] @ str '').replace(''"

definition clean_text :: "pystr \<Rightarrow> pystr" where
  "clean_text text =
     (if text = [] then []
      else
        let text = collapse_ws text;
            text = replace (str ''&nbsp;'') (str '' '') text;
            text = replace (str ''&quot;'') [34] text;
            text = replace (str ''&amp;'') (str ''&'') text;
            text = replace (str ''&lt;'') (str ''<'') text;
            text = replace (str ''&gt;'') (str ''>'') text;
            text = strip_tags text;
            text = replace [34] [34] (replace [34] [34] text);
            text = replace quote_old [39] text;
            text = strip text
        in text)"

section \<open>Topics\<close>

text \<open>
  The keyword loop shared by the two classifiers: the table is walked in the order of
  the dictionary, and a topic is appended when one of its keywords occurs in the text.
\<close>

fun match_topics :: "(pystr \<times> pystr list) list \<Rightarrow> pystr \<Rightarrow> pystr list" where
  "match_topics [] text = []"
| "match_topics ((topic, keywords) # rest) text =
     (if list_ex (\<lambda>keyword. contains text keyword) keywords
      then topic # match_topics rest text
      else match_topics rest text)"

subsection \<open>convert\_hadith.extract\_topics\_from\_chapter\<close>

definition chapter_topic_keywords :: "(pystr \<times> pystr list) list" where
  "chapter_topic_keywords =
    [(str ''prayer'', [str ''prayer'', str ''salah'', str ''salat'', str ''praying'']),
     (str ''fasting'', [str ''fasting'', str ''fast'', str ''sawm'', str ''ramadan'']),
     (str ''zakat'', [str ''zakat'', str ''charity'', str ''alms'']),
     (str ''hajj'', [str ''hajj'', str ''pilgrimage'', str ''umrah'']),
     (str ''purification'',
        [str ''purification'', str ''wudu'', str ''ablution'', str ''ghusl'', str ''tayammum'']),
     (str ''faith'', [str ''faith'', str ''belief'', str ''iman'', str ''creed'']),
     (str ''marriage'', [str ''marriage'', str ''nikah'', str ''divorce'', str ''talaq'']),
     (str ''trade'',
        [str ''trade'', str ''business'', str ''transactions'', str ''buying'', str ''selling'']),
     (str ''food'', [str ''food'', str ''drink'', str ''eating'', str ''slaughtering'']),
     (str ''clothing'', [str ''clothing'', str ''dress'', str ''garment'']),
     (str ''funeral'', [str ''funeral'', str ''burial'', str ''death'', str ''janazah'']),
     (str ''jihad'', [str ''jihad'', str ''fighting'', str ''warfare'']),
     (str ''knowledge'', [str ''knowledge'', str ''learning'', str ''teaching'']),
     (str ''manners'', [str ''manners'', str ''adab'', str ''etiquette'', str ''behavior''])]"

definition extract_topics_from_chapter :: "(pystr \<Rightarrow> pystr) \<Rightarrow> pystr \<Rightarrow> pystr list" where
  "extract_topics_from_chapter lower chapter_name =
     (if chapter_name = [] then [str ''general'']
      else
        let chapter_lower = lower chapter_name;
            topics = match_topics chapter_topic_keywords chapter_lower
        in if topics \<noteq> [] then topics else [str ''general''])"

subsection \<open>convert\_islamqa.extract\_topics\_from\_title\<close>

definition title_topic_keywords :: "(pystr \<times> pystr list) list" where
  "title_topic_keywords =
    [(str ''prayer'',
        [[1589, 1604, 1575, 1577], [1589, 1604, 1608, 1575, 1578], str ''prayer'', str ''salah'',
         [1589, 1604, 1609]]),
     (str ''fasting'',
        [[1589, 1610, 1575, 1605], [1589, 1608, 1605], str ''fasting'',
         [1585, 1605, 1590, 1575, 1606], str ''ramadan'']),
     (str ''zakat'', [[1586, 1603, 1575, 1577], str ''zakat'', str ''charity'']),
     (str ''hajj'', [[1581, 1580], [1593, 1605, 1585, 1577], str ''hajj'', str ''umrah'']),
     (str ''purification'',
        [[1591, 1607, 1575, 1585, 1577], [1608, 1590, 1608, 1569], [1594, 1587, 1604],
         str ''purification'', str ''wudu'']),
     (str ''marriage'',
        [[1586, 1608, 1575, 1580], [1606, 1603, 1575, 1581], [1591, 1604, 1575, 1602],
         str ''marriage'', str ''divorce'']),
     (str ''faith'',
        [[1573, 1610, 1605, 1575, 1606], [1593, 1602, 1610, 1583, 1577], str ''faith'',
         str ''belief'']),
     (str ''quran'',
        [[1602, 1585, 1570, 1606], str ''quran'', str ''recitation'',
         [1578, 1604, 1575, 1608, 1577]]),
     (str ''hadith'', [[1581, 1583, 1610, 1579], str ''hadith'', [1587, 1606, 1577]]),
     (str ''family'',
        [[1571, 1587, 1585, 1577], [1571, 1607, 1604], str ''family'',
         [1608, 1575, 1604, 1583, 1610, 1606], str ''parents'']),
     (str ''business'',
        [[1605, 1593, 1575, 1605, 1604, 1575, 1578], [1576, 1610, 1593],
         [1588, 1585, 1575, 1569], [1578, 1580, 1575, 1585, 1577], str ''business'',
         str ''trade'']),
     (str ''inheritance'',
        [[1605, 1610, 1585, 1575, 1579], str ''inheritance'', [1608, 1585, 1575, 1579, 1577]]),
     (str ''food'', [[1591, 1593, 1575, 1605], [1571, 1603, 1604], str ''food'', str ''eating'']),
     (str ''manners'',
        [[1571, 1582, 1604, 1575, 1602], [1570, 1583, 1575, 1576], str ''manners'',
         str ''behavior'']),
     (str ''worship'',
        [[1593, 1576, 1575, 1583, 1577], [1593, 1576, 1575, 1583, 1575, 1578], str ''worship''])]"

definition extract_topics_from_title :: "(pystr \<Rightarrow> pystr) \<Rightarrow> pystr \<Rightarrow> pystr list" where
  "extract_topics_from_title lower title =
     (if title = [] then [str ''general'']
      else
        let title_lower = lower title;
            topics = match_topics title_topic_keywords title_lower
        in if topics \<noteq> [] then topics else [str ''general''])"

subsection \<open>process\_texts.normalize\_topic\<close>

definition normalizations :: "(pystr \<times> pystr) list" where
  "normalizations =
    [(str ''salah'', str ''prayer''),
     (str ''salat'', str ''prayer''),
     (str ''namaz'', str ''prayer''),
     (str ''salaah'', str ''prayer''),
     (str ''wudhu'', str ''wudu''),
     (str ''wudoo'', str ''wudu''),
     (str ''zakah'', str ''zakat''),
     (str ''zakaah'', str ''zakat''),
     (str ''sawm'', str ''fasting''),
     (str ''siyam'', str ''fasting''),
     (str ''hajj'', str ''pilgrimage''),
     (str ''nikah'', str ''marriage''),
     (str ''talaaq'', str ''divorce''),
     (str ''talaq'', str ''divorce'')]"

definition normalize_topic :: "(pystr \<Rightarrow> pystr) \<Rightarrow> pystr \<Rightarrow> pystr" where
  "normalize_topic lower topic =
     (let topic = strip (lower topic)
      in case map_of normalizations topic of Some canonical \<Rightarrow> canonical | None \<Rightarrow> topic)"

section \<open>Entries\<close>

text \<open>
  An entry of a raw file, of the processed database and of the converters' output is a
  JSON object with the keys of the FiqhEntry schema. A field is \<open>None\<close> when the key is
  absent (or \<open>null\<close>, for the keys that the code reads with \<open>get\<close> and no default). The
  \<open>source\<close> object is always read as \<open>get('source', {})\<close>, so an absent one is the
  object with no keys.
\<close>

record source =
  title :: "pystr option"
  reference :: "pystr option"
  url :: "pystr option"
  collection :: "pystr option"
  scholar :: "pystr option"

definition empty_source :: source where
  "empty_source = \<lparr>title = None, reference = None, url = None, collection = None, scholar = None\<rparr>"

record entry =
  entry_id :: "pystr option"
  entry_type :: "pystr option"
  question :: "pystr option"
  ruling :: "pystr option"
  arabicText :: "pystr option"
  evidence :: "pystr list option"
  source :: source
  topics :: "pystr list option"
  madhab :: "pystr option"
  authenticity :: "pystr option"
  date :: "pystr option"

text \<open>\<open>d.get(key, default)\<close> on an optional field.\<close>

definition get_or :: "'a option \<Rightarrow> 'a \<Rightarrow> 'a" where
  "get_or field dflt = (case field of Some v \<Rightarrow> v | None \<Rightarrow> dflt)"

section \<open>Unification (process\_texts)\<close>

text \<open>
  The loops of \<open>process_hadith_file\<close> and \<open>process_fatwa_file\<close>. Two things are taken as
  parameters: \<open>uuid4\<close>, the identifiers that \<open>str(uuid.uuid4())\<close> returns (it is called
  once for every record that is kept, the argument of \<open>get\<close> being evaluated whether
  the key is there or not; \<open>n\<close> counts the calls), and \<open>extract\<close>, standing for
  \<open>extract_evidence_from_text\<close>, whose result goes through a Python \<open>set\<close> and so has
  no fixed order.
\<close>

fun process_hadiths ::
  "(pystr \<Rightarrow> pystr) \<Rightarrow> (nat \<Rightarrow> pystr) \<Rightarrow> (pystr \<Rightarrow> pystr list) \<Rightarrow> nat \<Rightarrow> entry list \<Rightarrow>
   entry list" where
  "process_hadiths lower uuid4 extract n [] = []"
| "process_hadiths lower uuid4 extract n (hadith # hadiths) =
     (let ruling' = clean_text (get_or (ruling hadith) [])
      in if ruling' = [] \<or> length ruling' < 20 then process_hadiths lower uuid4 extract n hadiths
         else
           let topics' = map (normalize_topic lower) (get_or (topics hadith) []);
               topics' = (if topics' = [] then [str ''general''] else topics');
               evidence' = get_or (evidence hadith) [];
               evidence' = (if evidence' = [] then extract ruling' else evidence');
               processed_hadith =
                 \<lparr>entry_id = Some (get_or (entry_id hadith) (uuid4 n)),
                  entry_type = Some (str ''hadith''),
                  question = None,
                  ruling = Some ruling',
                  arabicText = Some (clean_text (get_or (arabicText hadith) [])),
                  evidence = Some evidence',
                  source = source hadith,
                  topics = Some topics',
                  madhab = None,
                  authenticity = Some (get_or (authenticity hadith) (str ''unknown'')),
                  date = None\<rparr>
           in processed_hadith # process_hadiths lower uuid4 extract (Suc n) hadiths)"

fun process_fatawa ::
  "(pystr \<Rightarrow> pystr) \<Rightarrow> (nat \<Rightarrow> pystr) \<Rightarrow> (pystr \<Rightarrow> pystr list) \<Rightarrow> nat \<Rightarrow> entry list \<Rightarrow>
   entry list" where
  "process_fatawa lower uuid4 extract n [] = []"
| "process_fatawa lower uuid4 extract n (fatwa # fatawa) =
     (let question' = clean_text (get_or (question fatwa) []);
          ruling' = clean_text (get_or (ruling fatwa) [])
      in if ruling' = [] \<or> length ruling' < 50 then process_fatawa lower uuid4 extract n fatawa
         else
           let topics' = map (normalize_topic lower) (get_or (topics fatwa) []);
               topics' = (if topics' = [] then [str ''general''] else topics');
               evidence' = get_or (evidence fatwa) [];
               evidence' = (if evidence' = [] then extract ruling' else evidence');
               processed_fatwa =
                 \<lparr>entry_id = Some (get_or (entry_id fatwa) (uuid4 n)),
                  entry_type = Some (str ''fatwa''),
                  question = Some question',
                  ruling = Some ruling',
                  arabicText = None,
                  evidence = Some evidence',
                  source = source fatwa,
                  topics = Some topics',
                  madhab = Some (get_or (madhab fatwa) (str ''general'')),
                  authenticity = None,
                  date = date fatwa\<rparr>
           in processed_fatwa # process_fatawa lower uuid4 extract (Suc n) fatawa)"

text \<open>
  A file that cannot be opened or parsed (\<open>None\<close>) raises inside the \<open>try\<close>, and the
  handler returns the empty list.
\<close>

definition process_hadith_file ::
  "(pystr \<Rightarrow> pystr) \<Rightarrow> (nat \<Rightarrow> pystr) \<Rightarrow> (pystr \<Rightarrow> pystr list) \<Rightarrow> entry list option \<Rightarrow>
   entry list" where
  "process_hadith_file lower uuid4 extract file =
     (case file of None \<Rightarrow> [] | Some hadiths \<Rightarrow> process_hadiths lower uuid4 extract 0 hadiths)"

definition process_fatwa_file ::
  "(pystr \<Rightarrow> pystr) \<Rightarrow> (nat \<Rightarrow> pystr) \<Rightarrow> (pystr \<Rightarrow> pystr list) \<Rightarrow> entry list option \<Rightarrow>
   entry list" where
  "process_fatwa_file lower uuid4 extract file =
     (case file of None \<Rightarrow> [] | Some fatawa \<Rightarrow> process_fatawa lower uuid4 extract 0 fatawa)"

section \<open>The hadith converter (convert\_hadith)\<close>

datatype py_error = KeyError

record collection_info =
  english_name :: pystr
  arabic_name :: pystr
  author :: pystr
  info_authenticity :: pystr
  info_collection :: pystr
  url_base :: pystr

definition COLLECTION_INFO :: "(pystr \<times> collection_info) list" where
  "COLLECTION_INFO =
    [(str ''bukhari'',
      \<lparr>english_name = str ''Sahih al-Bukhari'',
       arabic_name = [1589, 1581, 1610, 1581, 32, 1575, 1604, 1576, 1582, 1575, 1585, 1610],
       author = str ''Imam Muhammad ibn Ismail al-Bukhari'',
       info_authenticity = str ''sahih'',
       info_collection = str ''Kutub al-Sittah'',
       url_base = str ''https://sunnah.com/bukhari''\<rparr>),
     (str ''muslim'',
      \<lparr>english_name = str ''Sahih Muslim'',
       arabic_name = [1589, 1581, 1610, 1581, 32, 1605, 1587, 1604, 1605],
       author = str ''Imam Muslim ibn al-Hajjaj'',
       info_authenticity = str ''sahih'',
       info_collection = str ''Kutub al-Sittah'',
       url_base = str ''https://sunnah.com/muslim''\<rparr>),
     (str ''abudawud'',
      \<lparr>english_name = str ''Sunan Abi Dawud'',
       arabic_name = [1587, 1606, 1606, 32, 1571, 1576, 1610, 32, 1583, 1575, 1608, 1583],
       author = str ''Imam Abu Dawud al-Sijistani'',
       info_authenticity = str ''unknown'',
       info_collection = str ''Kutub al-Sittah'',
       url_base = str ''https://sunnah.com/abudawud''\<rparr>),
     (str ''tirmidhi'',
      \<lparr>english_name = str ''Jami at-Tirmidhi'',
       arabic_name = [1580, 1575, 1605, 1593, 32, 1575, 1604, 1578, 1585, 1605, 1584, 1610],
       author = str ''Imam at-Tirmidhi'',
       info_authenticity = str ''unknown'',
       info_collection = str ''Kutub al-Sittah'',
       url_base = str ''https://sunnah.com/tirmidhi''\<rparr>),
     (str ''nasai'',
      \<lparr>english_name = str ''Sunan an-Nasa'' @ [39] @ str ''i'',
       arabic_name = [1587, 1606, 1606, 32, 1575, 1604, 1606, 1587, 1575, 1574, 1610],
       author = str ''Imam an-Nasa'' @ [39] @ str ''i'',
       info_authenticity = str ''unknown'',
       info_collection = str ''Kutub al-Sittah'',
       url_base = str ''https://sunnah.com/nasai''\<rparr>),
     (str ''ibnmajah'',
      \<lparr>english_name = str ''Sunan Ibn Majah'',
       arabic_name = [1587, 1606, 1606, 32, 1575, 1576, 1606, 32, 1605, 1575, 1580, 1607],
       author = str ''Imam Ibn Majah'',
       info_authenticity = str ''unknown'',
       info_collection = str ''Kutub al-Sittah'',
       url_base = str ''https://sunnah.com/ibnmajah''\<rparr>),
     (str ''ahmed'',
      \<lparr>english_name = str ''Musnad Ahmad'',
       arabic_name = [1605, 1587, 1606, 1583, 32, 1571, 1581, 1605, 1583],
       author = str ''Imam Ahmad ibn Hanbal'',
       info_authenticity = str ''unknown'',
       info_collection = str ''Nine Books'',
       url_base = str ''https://sunnah.com/ahmad''\<rparr>),
     (str ''darimi'',
      \<lparr>english_name = str ''Sunan ad-Darimi'',
       arabic_name = [1587, 1606, 1606, 32, 1575, 1604, 1583, 1575, 1585, 1605, 1610],
       author = str ''Imam ad-Darimi'',
       info_authenticity = str ''unknown'',
       info_collection = str ''Nine Books'',
       url_base = str ''https://sunnah.com/darimi''\<rparr>),
     (str ''malik'',
      \<lparr>english_name = str ''Muwatta Malik'',
       arabic_name = [1605, 1608, 1591, 1571, 32, 1605, 1575, 1604, 1603],
       author = str ''Imam Malik ibn Anas'',
       info_authenticity = str ''unknown'',
       info_collection = str ''Nine Books'',
       url_base = str ''https://sunnah.com/malik''\<rparr>)]"

text \<open>
  A hadith of the hadith-json dataset and a chapter of its \<open>chapters\<close> list. The numeric
  keys hold integers; a key that is absent is \<open>None\<close>. An absent \<open>english\<close> object is
  read as \<open>{}\<close>, so it is the object with neither key.
\<close>

record english_data =
  narrator :: "pystr option"
  english_text :: "pystr option"

record raw_hadith =
  hadith_id :: "int option"
  idInBook :: "int option"
  chapterId :: "int option"
  bookId :: "int option"
  arabic :: "pystr option"
  english :: english_data

record chapter_info =
  chapter_english :: "pystr option"

definition convert_hadith ::
  "(pystr \<Rightarrow> pystr) \<Rightarrow> raw_hadith \<Rightarrow> pystr \<Rightarrow> (int \<Rightarrow> chapter_info option) \<Rightarrow>
   py_error + entry" where
  "convert_hadith lower hadith collection_key chapters_map =
     (case map_of COLLECTION_INFO collection_key of
        None \<Rightarrow> Inl KeyError
      | Some collection' \<Rightarrow>
          let chapter_id = chapterId hadith;
              chapter' = (case chapter_id of None \<Rightarrow> None | Some i \<Rightarrow> chapters_map i);
              chapter_name =
                (case chapter' of None \<Rightarrow> [] | Some ch \<Rightarrow> get_or (chapter_english ch) []);
              topics' = extract_topics_from_chapter lower chapter_name;
              english_data' = english hadith;
              narrator' = get_or (narrator english_data') [];
              text = get_or (english_text english_data') [];
              ruling' =
                (if narrator' \<noteq> [] \<and> text \<noteq> [] then narrator' @ [10, 10] @ text
                 else if text \<noteq> [] then text else get_or (arabic hadith) []);
              book_id = (case bookId hadith of Some b \<Rightarrow> str_int b | None \<Rightarrow> str ''?'');
              hadith_num =
                (case idInBook hadith of
                   Some k \<Rightarrow> str_int k
                 | None \<Rightarrow> (case hadith_id hadith of Some i \<Rightarrow> str_int i | None \<Rightarrow> str ''?''));
              reference' = str ''Book '' @ book_id @ str '', Hadith '' @ hadith_num;
              url' = url_base collection' @ str ''/'' @ hadith_num
          in Inr
            \<lparr>entry_id =
               Some (collection_key @ str ''_'' @
                 (case hadith_id hadith of Some i \<Rightarrow> str_int i | None \<Rightarrow> hadith_num)),
             entry_type = Some (str ''hadith''),
             question = None,
             ruling = Some (strip ruling'),
             arabicText = Some (get_or (arabic hadith) []),
             evidence = Some [],
             source =
               \<lparr>title = Some (english_name collection'),
                reference = Some reference',
                url = Some url',
                collection = Some (info_collection collection'),
                scholar = None\<rparr>,
             topics = Some topics',
             madhab = Some (str ''general''),
             authenticity = Some (info_authenticity collection'),
             date = None\<rparr>)"

text \<open>
  The loop of \<open>process_collection\<close>: a hadith whose conversion raises is skipped, and an
  entry is kept when its ruling is not empty. The result is what \<open>main\<close> writes to
  \<open>data/raw/hadith/all_hadith.json\<close>, the file \<open>process_hadith_file\<close> reads.
\<close>

fun convert_hadiths ::
  "(pystr \<Rightarrow> pystr) \<Rightarrow> pystr \<Rightarrow> (int \<Rightarrow> chapter_info option) \<Rightarrow> raw_hadith list \<Rightarrow> entry list" where
  "convert_hadiths lower collection_key chapters_map [] = []"
| "convert_hadiths lower collection_key chapters_map (hadith # hadiths) =
     (case convert_hadith lower hadith collection_key chapters_map of
        Inl e \<Rightarrow> convert_hadiths lower collection_key chapters_map hadiths
      | Inr entry' \<Rightarrow>
          if get_or (ruling entry') [] \<noteq> []
          then entry' # convert_hadiths lower collection_key chapters_map hadiths
          else convert_hadiths lower collection_key chapters_map hadiths)"

section \<open>The embedding text (generate\_embeddings.create\_embedding\_text)\<close>

text \<open>\<open>if entry.get(key)\<close> on a string: the key is there and the string is not empty.\<close>

definition truthy :: "pystr option \<Rightarrow> bool" where
  "truthy field = (case field of None \<Rightarrow> False | Some v \<Rightarrow> v \<noteq> [])"

definition create_embedding_text :: "entry \<Rightarrow> pystr" where
  "create_embedding_text entry' =
     (let parts = [];
          parts = (if truthy (question entry')
                   then parts @ [str ''Question: '' @ get_or (question entry') []] else parts);
          parts = parts @ [get_or (ruling entry') []];
          evidence' = get_or (evidence entry') [];
          parts = (if evidence' \<noteq> []
                   then parts @ [str ''Evidence: '' @ join (str '' | '') evidence'] else parts);
          topics' = get_or (topics entry') [];
          parts = (if topics' \<noteq> []
                   then parts @ [str ''Topics: '' @ join (str '', '') topics'] else parts);
          madhab' = madhab entry';
          parts = (if truthy madhab' \<and> madhab' \<noteq> Some (str ''general'')
                   then parts @ [str ''Madhab: '' @ get_or madhab' []] else parts)
      in join [10, 10] parts)"

section \<open>The batch indexer (generate\_embeddings.main)\<close>

subsection \<open>The vector store and the embedding provider\<close>

text \<open>
  The store and the provider are services outside the repository. The collection is
  modelled as the specification describes it: records keyed by id, a batch write that
  overwrites by id and either lands as a whole or raises and leaves the collection as
  it was, \<open>get()['ids']\<close> and \<open>count()\<close>. The collection is an association list with
  distinct keys; an embedding vector is a value of an arbitrary type \<open>'v\<close>.

  What the services do in one run is given by an environment: whether \<open>collection.get()\<close>
  raises, the answer of the provider to the call for batch number \<open>k\<close> (\<open>None\<close> when the
  call raises), and whether the write of batch number \<open>k\<close> raises. A write whose lists
  of ids and of vectors differ in length raises as well.
\<close>

type_synonym metadata = "(pystr \<times> pystr) list"

type_synonym 'v item = "'v \<times> pystr \<times> metadata"

type_synonym 'v chroma = "(pystr \<times> 'v item) list"

record 'v env =
  get_fails :: bool
  embed :: "nat \<Rightarrow> pystr list \<Rightarrow> 'v list option"
  add_fails :: "nat \<Rightarrow> bool"

definition collection_ids :: "'v chroma \<Rightarrow> pystr list" where
  "collection_ids coll = map fst coll"

definition collection_count :: "'v chroma \<Rightarrow> nat" where
  "collection_count coll = length coll"

definition collection_add ::
  "bool \<Rightarrow> 'v chroma \<Rightarrow> pystr list \<Rightarrow> 'v list \<Rightarrow> pystr list \<Rightarrow> metadata list \<Rightarrow>
   'v chroma option" where
  "collection_add fails coll ids embeddings documents metadatas =
     (if fails \<or> length embeddings \<noteq> length ids then None
      else Some (fold (\<lambda>(i, item) c. AList.update i item c)
                  (zip ids (zip embeddings (zip documents metadatas))) coll))"

text \<open>The calls that a run makes to the two services, in the order it makes them.\<close>

datatype 'v call =
    Get
  | Embed "pystr list"
  | Add "pystr list" "'v list" "pystr list" "metadata list"
  | Sleep
  | Count

subsection \<open>generate\_embeddings\_openai and add\_to\_chromadb\<close>

text \<open>
  \<open>generate_embeddings_openai\<close> prints the provider's error and raises it again, so its
  result is the provider's.
\<close>

definition generate_embeddings_openai :: "'v env \<Rightarrow> nat \<Rightarrow> pystr list \<Rightarrow> 'v list option" where
  "generate_embeddings_openai e k texts = embed e k texts"

text \<open>\<open>[entry['id'] for entry in entries]\<close>; \<open>None\<close> is the \<open>KeyError\<close> of an entry with no id.\<close>

fun entry_ids :: "entry list \<Rightarrow> pystr list option" where
  "entry_ids [] = Some []"
| "entry_ids (entry' # entries) =
     (case entry_id entry' of
        None \<Rightarrow> None
      | Some i \<Rightarrow> (case entry_ids entries of None \<Rightarrow> None | Some ids \<Rightarrow> Some (i # ids)))"

definition entry_metadata :: "entry \<Rightarrow> metadata" where
  "entry_metadata entry' =
     (let metadata' =
            [(str ''type'', get_or (entry_type entry') (str ''unknown'')),
             (str ''source_title'', get_or (title (source entry')) []),
             (str ''source_ref'', get_or (reference (source entry')) []),
             (str ''topics'', join (str '','') (get_or (topics entry') []))];
          metadata' = (if truthy (madhab entry')
                       then metadata' @ [(str ''madhab'', get_or (madhab entry') [])]
                       else metadata');
          metadata' = (if truthy (authenticity entry')
                       then metadata' @ [(str ''authenticity'', get_or (authenticity entry') [])]
                       else metadata');
          metadata' = (if truthy (question entry')
                       then metadata' @ [(str ''question'', take 200 (get_or (question entry') []))]
                       else metadata')
      in metadata')"

text \<open>
  \<open>add_to_chromadb\<close> returns the calls it made and the collection after them, \<open>None\<close>
  when it raised.
\<close>

definition add_to_chromadb ::
  "'v env \<Rightarrow> nat \<Rightarrow> 'v chroma \<Rightarrow> entry list \<Rightarrow> 'v list \<Rightarrow> 'v call list \<times> 'v chroma option" where
  "add_to_chromadb e k coll entries embeddings =
     (case entry_ids entries of
        None \<Rightarrow> ([], None)
      | Some ids \<Rightarrow>
          let documents = map (\<lambda>entry'. take 1000 (get_or (ruling entry') [])) entries;
              metadatas = map entry_metadata entries
          in ([Add ids embeddings documents metadatas],
              collection_add (add_fails e k) coll ids embeddings documents metadatas))"

subsection \<open>main, from the query for the existing ids on\<close>

definition BATCH_SIZE :: nat where
  "BATCH_SIZE = 100"

record 'v run =
  store :: "'v chroma"
  calls :: "'v call list"
  stopped :: bool

text \<open>
  The ids that are skipped. When \<open>collection.get()\<close> raises, the handler is \<open>pass\<close> and
  \<open>existing_ids\<close> keeps its first value, the empty set.
\<close>

definition existing_ids :: "'v env \<Rightarrow> 'v chroma \<Rightarrow> pystr list" where
  "existing_ids e coll = (if get_fails e then [] else collection_ids coll)"

text \<open>
  \<open>[e for e in entries if e['id'] not in existing_ids]\<close>; an entry with no id raises
  \<open>KeyError\<close>, which nothing catches.
\<close>

definition entries_to_process :: "'v env \<Rightarrow> 'v chroma \<Rightarrow> entry list \<Rightarrow> py_error + entry list" where
  "entries_to_process e coll entries =
     (if list_ex (\<lambda>entry'. entry_id entry' = None) entries then Inl KeyError
      else Inr (filter (\<lambda>entry'. case entry_id entry' of
                                   None \<Rightarrow> False
                                 | Some i \<Rightarrow> i \<notin> set (existing_ids e coll)) entries))"

text \<open>
  The loop \<open>for i in range(0, len(entries_to_process), BATCH_SIZE)\<close>. The batch that
  starts at \<open>i\<close> has the number \<open>i div BATCH_SIZE\<close>. An exception of the provider or of
  the write ends the loop (\<open>break\<close>).
\<close>

function batch_loop :: "'v env \<Rightarrow> entry list \<Rightarrow> nat \<Rightarrow> 'v run \<Rightarrow> 'v run" where
  "batch_loop e pending i r =
     (if i < length pending then
        let batch = take BATCH_SIZE (drop i pending);
            texts = map create_embedding_text batch
        in case generate_embeddings_openai e (i div BATCH_SIZE) texts of
             None \<Rightarrow> r\<lparr>calls := calls r @ [Embed texts], stopped := True\<rparr>
           | Some embeddings \<Rightarrow>
               (case add_to_chromadb e (i div BATCH_SIZE) (store r) batch embeddings of
                  (cs, None) \<Rightarrow> r\<lparr>calls := calls r @ [Embed texts] @ cs, stopped := True\<rparr>
                | (cs, Some coll') \<Rightarrow>
                    batch_loop e pending (i + BATCH_SIZE)
                      (r\<lparr>store := coll', calls := calls r @ [Embed texts] @ cs @ [Sleep]\<rparr>))
      else r)"
  by pat_completeness auto
termination
  by (relation "measure (\<lambda>(e, pending, i, r). length pending - i)") (auto simp: BATCH_SIZE_def)

declare batch_loop.simps [simp del]

definition main_index :: "'v env \<Rightarrow> 'v chroma \<Rightarrow> entry list \<Rightarrow> py_error + 'v run" where
  "main_index e coll entries =
     (case entries_to_process e coll entries of
        Inl err \<Rightarrow> Inl err
      | Inr pending \<Rightarrow>
          if pending = [] then Inr \<lparr>store = coll, calls = [Get], stopped = False\<rparr>
          else
            let r = batch_loop e pending 0 \<lparr>store = coll, calls = [Get], stopped = False\<rparr>
            in Inr (r\<lparr>calls := calls r @ [Count]\<rparr>))"

section \<open>Notions used to state the properties\<close>


text \<open>
  On a string whose code points are all below 128, \<open>lower()\<close> moves the capital letters
  \<open>A\<close> to \<open>Z\<close> (65 to 90) to \<open>a\<close> to \<open>z\<close> and leaves every other code point as it is.
  \<open>ascii_lower\<close> is this mapping, code point by code point; it stands for \<open>lower()\<close> in the
  examples, whose strings are ASCII. \<open>lowers_ascii lower\<close> says of a mapping that it agrees
  with \<open>ascii_lower\<close> on every ASCII string, as the mapping of the runtime does.
\<close>

definition ascii_lower :: "pystr \<Rightarrow> pystr" where
  "ascii_lower s = map (\<lambda>c. if 65 \<le> c \<and> c \<le> 90 then c + 32 else c) s"

definition lowers_ascii :: "(pystr \<Rightarrow> pystr) \<Rightarrow> bool" where
  "lowers_ascii lower \<longleftrightarrow> (\<forall>s. (\<forall>c\<in>set s. c < 128) \<longrightarrow> lower s = ascii_lower s)"




text \<open>The batches of size \<open>n\<close> of a list: the slices \<open>xs[i:i+n]\<close> for \<open>i = 0, n, 2n, ...\<close>.\<close>

function chunks :: "nat \<Rightarrow> 'a list \<Rightarrow> 'a list list" where
  "chunks n xs = (if n = 0 \<or> xs = [] then [] else take n xs # chunks n (drop n xs))"
  by pat_completeness auto
termination
  by (relation "measure (\<lambda>(n, xs). length xs)") auto

declare chunks.simps [simp del]

text \<open>The ids, the embedding texts and the stored documents of a list of entries.\<close>

definition ids_of :: "entry list \<Rightarrow> pystr list" where
  "ids_of entries = map (\<lambda>entry'. get_or (entry_id entry') []) entries"

definition texts_of :: "entry list \<Rightarrow> pystr list" where
  "texts_of entries = map create_embedding_text entries"

definition documents_of :: "entry list \<Rightarrow> pystr list" where
  "documents_of entries = map (\<lambda>entry'. take 1000 (get_or (ruling entry') [])) entries"

text \<open>
  The provider calls of a run (the list of texts of each call) and its store writes
  (the list of ids of each write), in the order they were made.
\<close>

fun embed_calls :: "'v call list \<Rightarrow> pystr list list" where
  "embed_calls [] = []"
| "embed_calls (Embed texts # cs) = texts # embed_calls cs"
| "embed_calls (c # cs) = embed_calls cs"

fun add_calls :: "'v call list \<Rightarrow> pystr list list" where
  "add_calls [] = []"
| "add_calls (Add ids embeddings documents metadatas # cs) = ids # add_calls cs"
| "add_calls (c # cs) = add_calls cs"

text \<open>
  Batch number \<open>k\<close> goes through: the provider answers with one vector for each entry
  and the write does not raise.
\<close>

definition batch_ok :: "'v env \<Rightarrow> nat \<Rightarrow> entry list \<Rightarrow> bool" where
  "batch_ok e k batch =
     (case embed e k (texts_of batch) of
        None \<Rightarrow> False
      | Some embeddings \<Rightarrow> \<not> add_fails e k \<and> length embeddings = length batch)"

fun batches_ok :: "'v env \<Rightarrow> nat \<Rightarrow> entry list list \<Rightarrow> bool" where
  "batches_ok e k [] = True"
| "batches_ok e k (batch # batches) = (batch_ok e k batch \<and> batches_ok e (Suc k) batches)"

text \<open>The calls of a batch that goes through.\<close>

definition batch_calls :: "'v env \<Rightarrow> nat \<Rightarrow> entry list \<Rightarrow> 'v call list" where
  "batch_calls e k batch =
     [Embed (texts_of batch),
      Add (ids_of batch) (get_or (embed e k (texts_of batch)) []) (documents_of batch)
        (map entry_metadata batch),
      Sleep]"

text \<open>An entry whose id is not a key of the collection.\<close>

definition not_indexed :: "'v chroma \<Rightarrow> entry \<Rightarrow> bool" where
  "not_indexed coll entry' =
     (case entry_id entry' of None \<Rightarrow> False | Some i \<Rightarrow> i \<notin> set (collection_ids coll))"

text \<open>
  The loop of \<open>main\<close> once more, as a recursion over the list of batches; it is shown
  below to be what \<open>batch_loop\<close> computes.
\<close>

fun run_batches :: "'v env \<Rightarrow> nat \<Rightarrow> entry list list \<Rightarrow> 'v run \<Rightarrow> 'v run" where
  "run_batches e k [] r = r"
| "run_batches e k (batch # batches) r =
     (case generate_embeddings_openai e k (texts_of batch) of
        None \<Rightarrow> r\<lparr>calls := calls r @ [Embed (texts_of batch)], stopped := True\<rparr>
      | Some embeddings \<Rightarrow>
          (case add_to_chromadb e k (store r) batch embeddings of
             (cs, None) \<Rightarrow> r\<lparr>calls := calls r @ [Embed (texts_of batch)] @ cs, stopped := True\<rparr>
           | (cs, Some coll') \<Rightarrow>
               run_batches e (Suc k) batches
                 (r\<lparr>store := coll', calls := calls r @ [Embed (texts_of batch)] @ cs @ [Sleep]\<rparr>)))"

section \<open>The embedding text as the specification words it\<close>

text \<open>
  The specification's description of the embedding text, written out as one
  concatenation: the pieces in their fixed order, a piece that is left out leaving
  nothing behind, and a blank line (two line feeds) between the pieces that are there.
  A question or a madhab is present when the key is there and the string is not empty.
\<close>

definition spec_embedding_text :: "entry \<Rightarrow> pystr" where
  "spec_embedding_text entry' =
     (if truthy (question entry')
      then str ''Question: '' @ get_or (question entry') [] @ [10, 10] else []) @
     get_or (ruling entry') [] @
     (if get_or (evidence entry') [] \<noteq> []
      then [10, 10] @ str ''Evidence: '' @ join (str '' | '') (get_or (evidence entry') [])
      else []) @
     (if get_or (topics entry') [] \<noteq> []
      then [10, 10] @ str ''Topics: '' @ join (str '', '') (get_or (topics entry') [])
      else []) @
     (if truthy (madhab entry') \<and> madhab entry' \<noteq> Some (str ''general'')
      then [10, 10] @ str ''Madhab: '' @ get_or (madhab entry') [] else [])"

section \<open>Example data\<close>

text \<open>The raw hadith and the chapter of the specification's first example.\<close>

definition example_hadith :: raw_hadith where
  "example_hadith =
     \<lparr>hadith_id = None, idInBook = None, chapterId = Some 3, bookId = None, arabic = None,
      english = \<lparr>narrator = Some (str ''Narrated Aisha:''),
                 english_text = Some (str ''The Prophet said ...'')\<rparr>\<rparr>"

definition example_chapters :: "int \<Rightarrow> chapter_info option" where
  "example_chapters i =
     (if i = 3 then Some \<lparr>chapter_english = Some (str ''The Book of Prayer'')\<rparr> else None)"

text \<open>Raw records that carry a ruling and nothing else, and three rulings.\<close>

definition raw_with_ruling :: "pystr \<Rightarrow> entry" where
  "raw_with_ruling r =
     \<lparr>entry_id = None, entry_type = None, question = None, ruling = Some r, arabicText = None,
      evidence = None, source = empty_source, topics = None, madhab = None,
      authenticity = None, date = None\<rparr>"

definition ruling10 :: pystr where
  "ruling10 = str ''Permitted.''"

definition ruling40 :: pystr where
  "ruling40 = str ''Wiping over leather socks is permissible''"

definition ruling80 :: pystr where
  "ruling80 = str ''It is permissible.  See <b>Bukhari 202</b>&nbsp;and Muslim 274 for the evidence.''"

text \<open>A processed fatwa with every part of the embedding text.\<close>

definition fatwa_example :: entry where
  "fatwa_example =
     \<lparr>entry_id = Some (str ''islamqa_1''), entry_type = Some (str ''fatwa''),
      question = Some (str ''Is wudu required?''), ruling = Some (str ''Yes, it is.''),
      arabicText = None, evidence = Some [str ''[5:6]'', str ''Bukhari 135''],
      source = empty_source, topics = Some [str ''wudu'', str ''prayer''],
      madhab = Some (str ''hanafi''), authenticity = None, date = None\<rparr>"

text \<open>
  Entries for the indexer, 250 of them with ids \<open>demo_0\<close> to \<open>demo_249\<close>; an
  environment in which the provider answers every call with one vector for each text
  (here the length of the text) and no write raises; and one in which the provider
  raises at batch number \<open>j\<close>.
\<close>

definition demo_entry :: "nat \<Rightarrow> entry" where
  "demo_entry n =
     \<lparr>entry_id = Some (str ''demo_'' @ str_nat n), entry_type = Some (str ''fatwa''),
      question = Some (str ''Is it allowed?''), ruling = Some (str ''Yes.''),
      arabicText = None, evidence = Some [], source = empty_source,
      topics = Some [str ''general''], madhab = Some (str ''general''),
      authenticity = None, date = None\<rparr>"

definition demo_entries :: "entry list" where
  "demo_entries = map demo_entry [0..<250]"

definition good_env :: "bool \<Rightarrow> nat env" where
  "good_env gf =
     \<lparr>get_fails = gf, embed = (\<lambda>k texts. Some (map length texts)), add_fails = (\<lambda>k. False)\<rparr>"

definition failing_env :: "nat \<Rightarrow> nat env" where
  "failing_env j =
     \<lparr>get_fails = False,
      embed = (\<lambda>k texts. if k = j then None else Some (map length texts)),
      add_fails = (\<lambda>k. False)\<rparr>"

section \<open>The text normalizer: properties\<close>




































section \<open>Unification: properties\<close>

lemma process_hadiths_rulings:
  "\<forall>x\<in>set (process_hadiths lower uuid4 extract n hadiths).
     \<exists>h\<in>set hadiths. ruling x = Some (clean_text (get_or (ruling h) [])) \<and>
       clean_text (get_or (ruling h) []) \<noteq> [] \<and> 20 \<le> length (clean_text (get_or (ruling h) []))"
  by (induction hadiths arbitrary: n) (auto simp: Let_def)

lemma process_fatawa_rulings:
  "\<forall>x\<in>set (process_fatawa lower uuid4 extract n fatawa).
     \<exists>h\<in>set fatawa. ruling x = Some (clean_text (get_or (ruling h) [])) \<and>
       clean_text (get_or (ruling h) []) \<noteq> [] \<and> 50 \<le> length (clean_text (get_or (ruling h) []))"
  by (induction fatawa arbitrary: n) (auto simp: Let_def)

lemma process_hadiths_topics:
  "\<forall>x\<in>set (process_hadiths lower uuid4 extract n hadiths). \<exists>ts. topics x = Some ts \<and> ts \<noteq> []"
  by (induction hadiths arbitrary: n) (auto simp: Let_def)

lemma process_fatawa_topics:
  "\<forall>x\<in>set (process_fatawa lower uuid4 extract n fatawa). \<exists>ts. topics x = Some ts \<and> ts \<noteq> []"
  by (induction fatawa arbitrary: n) (auto simp: Let_def)

text \<open>
  Claim C3. Every entry that \<open>process_hadith_file\<close> returns has a ruling of at least 20
  characters, and every entry that \<open>process_fatwa_file\<close> returns one of at least 50; the
  ruling is the cleaned ruling of a raw record of the file. A raw record whose cleaned
  ruling is shorter (the empty ruling included) is skipped: the loop goes on as if the
  record were not there.
\<close>

theorem excluded_below_minimum:
  "(\<forall>x\<in>set (process_hadith_file lower uuid4 extract file).
      \<exists>r. ruling x = Some r \<and> r \<noteq> [] \<and> 20 \<le> length r) \<and>
   (\<forall>x\<in>set (process_fatwa_file lower uuid4 extract file).
      \<exists>r. ruling x = Some r \<and> r \<noteq> [] \<and> 50 \<le> length r) \<and>
   (\<forall>x\<in>set (process_hadiths lower uuid4 extract n raws).
      \<exists>h\<in>set raws. ruling x = Some (clean_text (get_or (ruling h) [])) \<and>
        20 \<le> length (clean_text (get_or (ruling h) []))) \<and>
   (\<forall>x\<in>set (process_fatawa lower uuid4 extract n raws).
      \<exists>h\<in>set raws. ruling x = Some (clean_text (get_or (ruling h) [])) \<and>
        50 \<le> length (clean_text (get_or (ruling h) []))) \<and>
   (length (clean_text (get_or (ruling raw) [])) < 20 \<longrightarrow>
      process_hadiths lower uuid4 extract n (raw # rest) = process_hadiths lower uuid4 extract n rest) \<and>
   (length (clean_text (get_or (ruling raw) [])) < 50 \<longrightarrow>
      process_fatawa lower uuid4 extract n (raw # rest) = process_fatawa lower uuid4 extract n rest)"
proof -
  have a: "\<forall>x\<in>set (process_hadith_file lower uuid4 extract file).
      \<exists>r. ruling x = Some r \<and> r \<noteq> [] \<and> 20 \<le> length r"
  proof (cases "file")
    case None
    then show ?thesis by (simp add: process_hadith_file_def)
  next
    case (Some hadiths)
    have "process_hadith_file lower uuid4 extract file = process_hadiths lower uuid4 extract 0 hadiths"
      using Some by (simp add: process_hadith_file_def)
    then show ?thesis
      using process_hadiths_rulings[where n = 0 and hadiths = hadiths] by metis
  qed
  have b: "\<forall>x\<in>set (process_fatwa_file lower uuid4 extract file).
      \<exists>r. ruling x = Some r \<and> r \<noteq> [] \<and> 50 \<le> length r"
  proof (cases "file")
    case None
    then show ?thesis by (simp add: process_fatwa_file_def)
  next
    case (Some fatawa)
    have "process_fatwa_file lower uuid4 extract file = process_fatawa lower uuid4 extract 0 fatawa"
      using Some by (simp add: process_fatwa_file_def)
    then show ?thesis
      using process_fatawa_rulings[where n = 0 and fatawa = fatawa] by metis
  qed
  have a': "\<forall>x\<in>set (process_hadiths lower uuid4 extract n raws).
      \<exists>h\<in>set raws. ruling x = Some (clean_text (get_or (ruling h) [])) \<and>
        20 \<le> length (clean_text (get_or (ruling h) []))"
    using process_hadiths_rulings[where n = n and hadiths = raws] by blast
  have b': "\<forall>x\<in>set (process_fatawa lower uuid4 extract n raws).
      \<exists>h\<in>set raws. ruling x = Some (clean_text (get_or (ruling h) [])) \<and>
        50 \<le> length (clean_text (get_or (ruling h) []))"
    using process_fatawa_rulings[where n = n and fatawa = raws] by blast
  have c: "length (clean_text (get_or (ruling raw) [])) < 20 \<longrightarrow>
      process_hadiths lower uuid4 extract n (raw # rest) = process_hadiths lower uuid4 extract n rest"
    by (simp add: Let_def)
  have d: "length (clean_text (get_or (ruling raw) [])) < 50 \<longrightarrow>
      process_fatawa lower uuid4 extract n (raw # rest) = process_fatawa lower uuid4 extract n rest"
    by (simp add: Let_def)
  show ?thesis
    apply (intro conjI)
         apply (rule a)
        apply (rule b)
       apply (rule a')
      apply (rule b')
     apply (rule c)
    apply (rule d)
    done
qed

lemma clean10: "clean_text ruling10 = str ''Permitted.''"
  by (simp add: ruling10_def clean_text_def replace_def strip_def is_space_def quote_old_def)

lemma clean40: "clean_text ruling40 = str ''Wiping over leather socks is permissible''"
  by (simp add: ruling40_def clean_text_def replace_def strip_def is_space_def quote_old_def)

lemma clean80: "clean_text ruling80 = str ''It is permissible. See Bukhari 202 and Muslim 274 for the evidence.''"
  by (simp add: ruling80_def clean_text_def replace_def strip_def is_space_def quote_old_def)

text \<open>
  Claim C3, an instance: a file with a ruling of 10 characters, one of 40 and one of 80
  (67 once cleaned). As a hadith file it keeps the last two, as a fatwa file the last
  one only.
\<close>

theorem excluded_below_minimum_witness:
  "length (clean_text ruling10) = 10 \<and> length (clean_text ruling40) = 40 \<and>
   map ruling (process_hadith_file ascii_lower (\<lambda>n. str ''uuid'') (\<lambda>t. [])
                 (Some [raw_with_ruling ruling10, raw_with_ruling ruling40,
                        raw_with_ruling ruling80])) =
     [Some (str ''Wiping over leather socks is permissible''),
      Some (str ''It is permissible. See Bukhari 202 and Muslim 274 for the evidence.'')] \<and>
   map ruling (process_fatwa_file ascii_lower (\<lambda>n. str ''uuid'') (\<lambda>t. [])
                 (Some [raw_with_ruling ruling10, raw_with_ruling ruling40,
                        raw_with_ruling ruling80])) =
     [Some (str ''It is permissible. See Bukhari 202 and Muslim 274 for the evidence.'')]"
proof -
  let ?u = "\<lambda>n :: nat. str ''uuid''"
  let ?x = "\<lambda>t :: pystr. [] :: pystr list"
  have l10: "length (clean_text (get_or (ruling (raw_with_ruling ruling10)) [])) < 20"
    by (simp add: raw_with_ruling_def get_or_def clean10)
  have l10': "length (clean_text (get_or (ruling (raw_with_ruling ruling10)) [])) < 50"
    by (simp add: raw_with_ruling_def get_or_def clean10)
  have l40: "length (clean_text (get_or (ruling (raw_with_ruling ruling40)) [])) < 50"
    by (simp add: raw_with_ruling_def get_or_def clean40)
  have h1: "process_hadiths ascii_lower ?u ?x 0
              [raw_with_ruling ruling10, raw_with_ruling ruling40, raw_with_ruling ruling80] =
            process_hadiths ascii_lower ?u ?x 0 [raw_with_ruling ruling40, raw_with_ruling ruling80]"
    using excluded_below_minimum[of ascii_lower ?u ?x None 0 "[]" "raw_with_ruling ruling10"
        "[raw_with_ruling ruling40, raw_with_ruling ruling80]"] l10 by blast
  have f1: "process_fatawa ascii_lower ?u ?x 0
              [raw_with_ruling ruling10, raw_with_ruling ruling40, raw_with_ruling ruling80] =
            process_fatawa ascii_lower ?u ?x 0 [raw_with_ruling ruling40, raw_with_ruling ruling80]"
    using excluded_below_minimum[of ascii_lower ?u ?x None 0 "[]" "raw_with_ruling ruling10"
        "[raw_with_ruling ruling40, raw_with_ruling ruling80]"] l10' by blast
  have f2: "process_fatawa ascii_lower ?u ?x 0 [raw_with_ruling ruling40, raw_with_ruling ruling80] =
            process_fatawa ascii_lower ?u ?x 0 [raw_with_ruling ruling80]"
    using excluded_below_minimum[of ascii_lower ?u ?x None 0 "[]" "raw_with_ruling ruling40"
        "[raw_with_ruling ruling80]"] l40 by blast
  have f: "map ruling (process_fatawa ascii_lower ?u ?x 0 [raw_with_ruling ruling80]) =
     [Some (str ''It is permissible. See Bukhari 202 and Muslim 274 for the evidence.'')]"
    by (simp add: raw_with_ruling_def get_or_def clean80 Let_def)
  have h: "map ruling (process_hadiths ascii_lower ?u ?x 0
             [raw_with_ruling ruling40, raw_with_ruling ruling80]) =
     [Some (str ''Wiping over leather socks is permissible''),
      Some (str ''It is permissible. See Bukhari 202 and Muslim 274 for the evidence.'')]"
    by (simp add: raw_with_ruling_def get_or_def clean40 clean80 Let_def)
  have c10: "length (clean_text ruling10) = 10" by (simp add: clean10)
  have c40: "length (clean_text ruling40) = 40" by (simp add: clean40)
  show ?thesis
    using c10 c40 h1 h f1 f2 f by (simp add: process_fatwa_file_def process_hadith_file_def)
qed

section \<open>Topics: properties\<close>

lemma match_topics_none:
  "\<forall>(topic, keywords)\<in>set tbl. \<forall>keyword\<in>set keywords. \<not> contains s keyword \<Longrightarrow>
   match_topics tbl s = []"
  by (induction tbl s rule: match_topics.induct) (auto simp: list_ex_iff)

lemma lowers_ascii_ascii_lower: "lowers_ascii ascii_lower"
  by (simp add: lowers_ascii_def)

lemma lowers_ascii_eq:
  "lowers_ascii lower \<Longrightarrow> \<forall>c\<in>set s. c < 128 \<Longrightarrow> lower s = ascii_lower s"
  by (simp add: lowers_ascii_def)

text \<open>
  Claim C6. The classifiers ignore case by looking for the keywords in \<open>text.lower()\<close>.
  Whatever the case mapping of the runtime is: when no keyword of the table occurs in
  the lower-cased text, each of the two classifiers returns exactly \<open>['general']\<close>; their
  result is never empty; every processed entry has a non-empty list of topics; and a raw
  record without topics, if it is kept, gets the topics \<open>['general']\<close>.
\<close>

theorem topics_never_empty:
  "((\<forall>(topic, keywords)\<in>set chapter_topic_keywords.
       \<forall>keyword\<in>set keywords. \<not> contains (lower text) keyword) \<longrightarrow>
     extract_topics_from_chapter lower text = [str ''general'']) \<and>
   ((\<forall>(topic, keywords)\<in>set title_topic_keywords.
       \<forall>keyword\<in>set keywords. \<not> contains (lower text) keyword) \<longrightarrow>
     extract_topics_from_title lower text = [str ''general'']) \<and>
   extract_topics_from_chapter lower text \<noteq> [] \<and>
   extract_topics_from_title lower text \<noteq> [] \<and>
   (\<forall>x\<in>set (process_hadiths lower uuid4 extract n hadiths). \<exists>ts. topics x = Some ts \<and> ts \<noteq> []) \<and>
   (\<forall>x\<in>set (process_fatawa lower uuid4 extract n fatawa). \<exists>ts. topics x = Some ts \<and> ts \<noteq> []) \<and>
   (get_or (topics raw) [] = [] \<and> 20 \<le> length (clean_text (get_or (ruling raw) [])) \<longrightarrow>
      map topics (process_hadiths lower uuid4 extract n [raw]) = [Some [str ''general'']]) \<and>
   (get_or (topics raw) [] = [] \<and> 50 \<le> length (clean_text (get_or (ruling raw) [])) \<longrightarrow>
      map topics (process_fatawa lower uuid4 extract n [raw]) = [Some [str ''general'']])"
proof -
  have a: "(\<forall>(topic, keywords)\<in>set chapter_topic_keywords.
       \<forall>keyword\<in>set keywords. \<not> contains (lower text) keyword) \<longrightarrow>
     extract_topics_from_chapter lower text = [str ''general'']"
    using match_topics_none[of chapter_topic_keywords "lower text"]
    by (simp add: extract_topics_from_chapter_def Let_def)
  have b: "(\<forall>(topic, keywords)\<in>set title_topic_keywords.
       \<forall>keyword\<in>set keywords. \<not> contains (lower text) keyword) \<longrightarrow>
     extract_topics_from_title lower text = [str ''general'']"
    using match_topics_none[of title_topic_keywords "lower text"]
    by (simp add: extract_topics_from_title_def Let_def)
  have c: "extract_topics_from_chapter lower text \<noteq> []"
    by (simp add: extract_topics_from_chapter_def Let_def)
  have d: "extract_topics_from_title lower text \<noteq> []"
    by (simp add: extract_topics_from_title_def Let_def)
  have f: "get_or (topics raw) [] = [] \<and> 20 \<le> length (clean_text (get_or (ruling raw) [])) \<longrightarrow>
      map topics (process_hadiths lower uuid4 extract n [raw]) = [Some [str ''general'']]"
    by (auto simp: Let_def)
  have g: "get_or (topics raw) [] = [] \<and> 50 \<le> length (clean_text (get_or (ruling raw) [])) \<longrightarrow>
      map topics (process_fatawa lower uuid4 extract n [raw]) = [Some [str ''general'']]"
    by (auto simp: Let_def)
  from a b c d f g process_hadiths_topics[where n = n and hadiths = hadiths]
    process_fatawa_topics[where n = n and fatawa = fatawa]
  show ?thesis by blast
qed

text \<open>
  Claim C6, an instance: the text \<open>Revelation\<close>, lower-cased as the runtime lower-cases an
  ASCII string; no keyword of either table occurs in it. And a raw record with a ruling
  and no topics.
\<close>

theorem topics_never_empty_witness:
  "ascii_lower (str ''Revelation'') = str ''revelation'' \<and>
   extract_topics_from_chapter ascii_lower (str ''Revelation'') = [str ''general''] \<and>
   extract_topics_from_title ascii_lower (str ''Revelation'') = [str ''general''] \<and>
   map topics (process_fatawa ascii_lower (\<lambda>n. str ''uuid'') (\<lambda>t. []) 0 [raw_with_ruling ruling80]) =
     [Some [str ''general'']] \<and>
   map topics (process_hadiths ascii_lower (\<lambda>n. str ''uuid'') (\<lambda>t. []) 0 [raw_with_ruling ruling80]) =
     [Some [str ''general'']]"
proof -
  have lw: "ascii_lower (str ''Revelation'') = str ''revelation''"
    by (simp add: ascii_lower_def)
  have h1: "\<forall>(topic, keywords)\<in>set chapter_topic_keywords.
       \<forall>keyword\<in>set keywords. \<not> contains (ascii_lower (str ''Revelation'')) keyword"
    unfolding lw by (simp add: chapter_topic_keywords_def)
  have h2: "\<forall>(topic, keywords)\<in>set title_topic_keywords.
       \<forall>keyword\<in>set keywords. \<not> contains (ascii_lower (str ''Revelation'')) keyword"
    unfolding lw by (simp add: title_topic_keywords_def)
  have h3: "get_or (topics (raw_with_ruling ruling80)) [] = [] \<and>
            50 \<le> length (clean_text (get_or (ruling (raw_with_ruling ruling80)) []))"
    by (simp add: raw_with_ruling_def get_or_def clean80)
  have h4: "get_or (topics (raw_with_ruling ruling80)) [] = [] \<and>
            20 \<le> length (clean_text (get_or (ruling (raw_with_ruling ruling80)) []))"
    by (simp add: raw_with_ruling_def get_or_def clean80)
  from topics_never_empty[of ascii_lower "str ''Revelation''" "\<lambda>n. str ''uuid''" "\<lambda>t. []" 0
      "[]" "[]" "raw_with_ruling ruling80"] lw h1 h2 h3 h4
  show ?thesis by blast
qed

lemma normalize_topic_ascii:
  assumes "lowers_ascii lower" and "\<forall>c\<in>set tag. c < 128"
  shows "normalize_topic lower tag = normalize_topic ascii_lower tag"
  using lowers_ascii_eq[OF assms] by (simp add: normalize_topic_def)

text \<open>
  Claim C7, as amended. \<open>normalize_topic\<close> lower-cases and trims the tag and looks the
  result up. With a case mapping that lower-cases ASCII strings as the runtime does,
  \<open>salah\<close>, \<open>wudhu\<close> and \<open>talaaq\<close> go to \<open>prayer\<close>, \<open>wudu\<close> and \<open>divorce\<close>. Whatever the case
  mapping is: a tag whose lower-cased, trimmed form is a key goes to the canonical name;
  every other tag comes back lower-cased and trimmed, so unchanged when it already is in
  that form.
\<close>

theorem normalize_topic_lookup:
  "(lowers_ascii lower \<longrightarrow>
      normalize_topic lower (str ''salah'') = str ''prayer'' \<and>
      normalize_topic lower (str ''wudhu'') = str ''wudu'' \<and>
      normalize_topic lower (str ''talaaq'') = str ''divorce'') \<and>
   (map_of normalizations (strip (lower tag)) = Some canonical \<longrightarrow>
      normalize_topic lower tag = canonical) \<and>
   (map_of normalizations (strip (lower tag)) = None \<longrightarrow>
      normalize_topic lower tag = strip (lower tag)) \<and>
   (map_of normalizations tag = None \<and> strip (lower tag) = tag \<longrightarrow>
      normalize_topic lower tag = tag)"
proof -
  have a: "normalize_topic ascii_lower (str ''salah'') = str ''prayer''"
    by (simp add: normalize_topic_def normalizations_def strip_def ascii_lower_def is_space_def)
  have b: "normalize_topic ascii_lower (str ''wudhu'') = str ''wudu''"
    by (simp add: normalize_topic_def normalizations_def strip_def ascii_lower_def is_space_def)
  have c: "normalize_topic ascii_lower (str ''talaaq'') = str ''divorce''"
    by (simp add: normalize_topic_def normalizations_def strip_def ascii_lower_def is_space_def)
  have e: "lowers_ascii lower \<longrightarrow>
      normalize_topic lower (str ''salah'') = str ''prayer'' \<and>
      normalize_topic lower (str ''wudhu'') = str ''wudu'' \<and>
      normalize_topic lower (str ''talaaq'') = str ''divorce''"
  proof
    assume l: "lowers_ascii lower"
    have a': "normalize_topic lower (str ''salah'') = normalize_topic ascii_lower (str ''salah'')"
      using l by (rule normalize_topic_ascii) simp
    have b': "normalize_topic lower (str ''wudhu'') = normalize_topic ascii_lower (str ''wudhu'')"
      using l by (rule normalize_topic_ascii) simp
    have c': "normalize_topic lower (str ''talaaq'') = normalize_topic ascii_lower (str ''talaaq'')"
      using l by (rule normalize_topic_ascii) simp
    show "normalize_topic lower (str ''salah'') = str ''prayer'' \<and>
      normalize_topic lower (str ''wudhu'') = str ''wudu'' \<and>
      normalize_topic lower (str ''talaaq'') = str ''divorce''"
      unfolding a' b' c' using a b c by (intro conjI)
  qed
  have d: "map_of normalizations (strip (lower tag)) = Some canonical \<longrightarrow>
      normalize_topic lower tag = canonical"
    by (simp add: normalize_topic_def Let_def)
  have f: "map_of normalizations (strip (lower tag)) = None \<longrightarrow>
      normalize_topic lower tag = strip (lower tag)"
    by (simp add: normalize_topic_def Let_def)
  have g: "map_of normalizations tag = None \<and> strip (lower tag) = tag \<longrightarrow>
      normalize_topic lower tag = tag"
    by (simp add: normalize_topic_def Let_def)
  from e d f g show ?thesis by (intro conjI)
qed

text \<open>
  Claim C7, instances of the amended property, with ASCII tags lower-cased as the
  runtime lower-cases them: the three variants, a variant with capitals and blanks, an
  unknown tag with a capital and a blank, and an unknown tag in lower case.
\<close>

theorem normalize_topic_lookup_witness:
  "lowers_ascii ascii_lower \<and>
   normalize_topic ascii_lower (str ''salah'') = str ''prayer'' \<and>
   normalize_topic ascii_lower (str ''wudhu'') = str ''wudu'' \<and>
   normalize_topic ascii_lower (str ''talaaq'') = str ''divorce'' \<and>
   normalize_topic ascii_lower (str '' Salah '') = str ''prayer'' \<and>
   normalize_topic ascii_lower (str ''Fiqh '') = str ''fiqh'' \<and>
   normalize_topic ascii_lower (str ''fiqh'') = str ''fiqh''"
proof -
  have l1: "strip (ascii_lower (str '' Salah '')) = str ''salah''"
    by (simp add: strip_def ascii_lower_def is_space_def)
  have l2: "strip (ascii_lower (str ''Fiqh '')) = str ''fiqh''"
    by (simp add: strip_def ascii_lower_def is_space_def)
  have l3: "strip (ascii_lower (str ''fiqh'')) = str ''fiqh''"
    by (simp add: strip_def ascii_lower_def is_space_def)
  have m1: "map_of normalizations (str ''salah'') = Some (str ''prayer'')"
    by (simp add: normalizations_def)
  have m2: "map_of normalizations (str ''fiqh'') = None"
    by (simp add: normalizations_def)
  have v: "normalize_topic ascii_lower (str ''salah'') = str ''prayer'' \<and>
      normalize_topic ascii_lower (str ''wudhu'') = str ''wudu'' \<and>
      normalize_topic ascii_lower (str ''talaaq'') = str ''divorce''"
    using normalize_topic_lookup[of ascii_lower] lowers_ascii_ascii_lower by blast
  have a: "normalize_topic ascii_lower (str '' Salah '') = str ''prayer''"
    using normalize_topic_lookup[of ascii_lower "str '' Salah ''" "str ''prayer''"] l1 m1 by simp
  have b: "normalize_topic ascii_lower (str ''Fiqh '') = str ''fiqh''"
    using normalize_topic_lookup[of ascii_lower "str ''Fiqh ''"] l2 m2 by simp
  have c: "normalize_topic ascii_lower (str ''fiqh'') = str ''fiqh''"
    using normalize_topic_lookup[of ascii_lower "str ''fiqh''"] l3 m2 by simp
  from lowers_ascii_ascii_lower v a b c show ?thesis by blast
qed

text \<open>
  Claim C7, as stated, fails: the tag \<open>Fiqh\<close> is not in the mapping and does not pass
  through unchanged. \<open>'Fiqh'.lower()\<close> is \<open>fiqh\<close>, and that is what comes back.
\<close>

theorem normalize_topic_changes_tag:
  "map_of normalizations (str ''Fiqh'') = None \<and>
   ascii_lower (str ''Fiqh'') = str ''fiqh'' \<and>
   normalize_topic ascii_lower (str ''Fiqh'') = str ''fiqh'' \<and>
   normalize_topic ascii_lower (str ''Fiqh'') \<noteq> str ''Fiqh''"
  by (simp add: normalize_topic_def normalizations_def strip_def ascii_lower_def is_space_def)

section \<open>The embedding text: properties\<close>

lemma join_snoc: "ps \<noteq> [] \<Longrightarrow> join sep (ps @ [p]) = join sep ps @ sep @ p"
  by (induction sep ps rule: join.induct) auto

text \<open>
  Claim C8. The text that \<open>create_embedding_text\<close> builds by appending to \<open>parts\<close> and
  joining is the concatenation the specification describes: question, ruling, evidence,
  topics, madhab, in this order, with blank lines between them.
\<close>

theorem embedding_text_order:
  "create_embedding_text entry' = spec_embedding_text entry'"
proof -
  let ?nl = "[10, 10] :: pystr"
  define q where "q = get_or (question entry') []"
  define r where "r = get_or (ruling entry') []"
  define ev where "ev = get_or (evidence entry') []"
  define ts where "ts = get_or (topics entry') []"
  define m where "m = get_or (madhab entry') []"
  define has_m where "has_m \<longleftrightarrow> truthy (madhab entry') \<and> madhab entry' \<noteq> Some (str ''general'')"
  define parts1 where "parts1 = (if truthy (question entry') then [str ''Question: '' @ q] else [])"
  define parts2 where "parts2 = parts1 @ [r]"
  define parts3 where
    "parts3 = (if ev \<noteq> [] then parts2 @ [str ''Evidence: '' @ join (str '' | '') ev] else parts2)"
  define parts4 where
    "parts4 = (if ts \<noteq> [] then parts3 @ [str ''Topics: '' @ join (str '', '') ts] else parts3)"
  define parts5 where
    "parts5 = (if has_m then parts4 @ [str ''Madhab: '' @ m] else parts4)"
  have built: "create_embedding_text entry' = join ?nl parts5"
    unfolding create_embedding_text_def Let_def parts5_def parts4_def parts3_def parts2_def
      parts1_def q_def r_def ev_def ts_def m_def has_m_def
    by simp
  have n2: "parts2 \<noteq> []" by (simp add: parts2_def)
  have n3: "parts3 \<noteq> []" using n2 by (simp add: parts3_def)
  have n4: "parts4 \<noteq> []" using n3 by (simp add: parts4_def)
  have j2: "join ?nl parts2 =
              (if truthy (question entry') then str ''Question: '' @ q @ ?nl else []) @ r"
    by (simp add: parts2_def parts1_def)
  have j3: "join ?nl parts3 =
              join ?nl parts2 @
              (if ev \<noteq> [] then ?nl @ str ''Evidence: '' @ join (str '' | '') ev else [])"
    using join_snoc[OF n2, of ?nl] by (simp add: parts3_def)
  have j4: "join ?nl parts4 =
              join ?nl parts3 @
              (if ts \<noteq> [] then ?nl @ str ''Topics: '' @ join (str '', '') ts else [])"
    using join_snoc[OF n3, of ?nl] by (simp add: parts4_def)
  have j5: "join ?nl parts5 =
              join ?nl parts4 @ (if has_m then ?nl @ str ''Madhab: '' @ m else [])"
    using join_snoc[OF n4, of ?nl] by (simp add: parts5_def)
  have "spec_embedding_text entry' =
          ((((if truthy (question entry') then str ''Question: '' @ q @ ?nl else []) @ r) @
            (if ev \<noteq> [] then ?nl @ str ''Evidence: '' @ join (str '' | '') ev else [])) @
            (if ts \<noteq> [] then ?nl @ str ''Topics: '' @ join (str '', '') ts else [])) @
            (if has_m then ?nl @ str ''Madhab: '' @ m else [])"
    unfolding spec_embedding_text_def q_def r_def ev_def ts_def m_def has_m_def by simp
  also have "\<dots> = join ?nl parts5" unfolding j5 j4 j3 j2 ..
  finally show ?thesis using built by simp
qed

text \<open>Claim C8, an instance: a fatwa with a question, two citations, two topics and a madhab.\<close>

theorem embedding_text_order_witness:
  "create_embedding_text fatwa_example =
     str ''Question: Is wudu required?'' @ [10, 10] @ str ''Yes, it is.'' @ [10, 10] @
     str ''Evidence: [5:6] | Bukhari 135'' @ [10, 10] @ str ''Topics: wudu, prayer'' @ [10, 10] @
     str ''Madhab: hanafi''"
  using embedding_text_order[of fatwa_example]
  by (simp add: spec_embedding_text_def fatwa_example_def truthy_def get_or_def)

section \<open>The first example of the specification\<close>

lemma chapter_topics_example:
  assumes "lowers_ascii lower"
  shows "extract_topics_from_chapter lower (str ''The Book of Prayer'') = [str ''prayer'']"
proof -
  have "lower (str ''The Book of Prayer'') = ascii_lower (str ''The Book of Prayer'')"
    using assms by (rule lowers_ascii_eq) simp
  then have lw: "lower (str ''The Book of Prayer'') = str ''the book of prayer''"
    by (simp add: ascii_lower_def)
  have m: "match_topics chapter_topic_keywords (str ''the book of prayer'') = [str ''prayer'']"
    by (simp add: chapter_topic_keywords_def)
  have ne: "str ''The Book of Prayer'' \<noteq> []" by simp
  show ?thesis
    by (simp only: extract_topics_from_chapter_def Let_def lw m ne if_False) simp
qed

lemma example_hadith_converted:
  assumes "lowers_ascii lower" and "map_of COLLECTION_INFO collection_key = Some info"
  shows "\<exists>x. convert_hadiths lower collection_key example_chapters [example_hadith] = [x] \<and>
           topics x = Some [str ''prayer''] \<and>
           ruling x = Some (str ''Narrated Aisha:'' @ [10, 10] @ str ''The Prophet said ...'')"
proof -
  define cn where "cn = str ''The Book of Prayer''"
  define nar where "nar = str ''Narrated Aisha:''"
  define said where "said = str ''The Prophet said ...''"
  define raw where "raw = nar @ [10, 10] @ said"
  define prayer where "prayer = str ''prayer''"
  have eh: "example_hadith =
     \<lparr>hadith_id = None, idInBook = None, chapterId = Some 3, bookId = None, arabic = None,
      english = \<lparr>narrator = Some nar, english_text = Some said\<rparr>\<rparr>"
    by (simp add: example_hadith_def nar_def said_def)
  have ec: "example_chapters 3 = Some \<lparr>chapter_english = Some cn\<rparr>"
    by (simp add: example_chapters_def cn_def)
  have t: "extract_topics_from_chapter lower cn = [prayer]"
    unfolding cn_def prayer_def using assms(1) by (rule chapter_topics_example)
  have ne: "nar \<noteq> []" "said \<noteq> []" by (simp_all add: nar_def said_def)
  have s: "strip (nar @ 10 # 10 # said) = raw"
    by (simp add: raw_def nar_def said_def strip_def is_space_def)
  have lr: "raw \<noteq> []" by (simp add: raw_def nar_def)
  obtain x where x: "convert_hadith lower example_hadith collection_key example_chapters = Inr x"
    and xt: "topics x = Some [prayer]" and xr: "ruling x = Some raw"
    using assms(2) t s ne
    by (simp add: convert_hadith_def eh ec get_or_def Let_def)
  have cv: "convert_hadiths lower collection_key example_chapters [example_hadith] = [x]"
    using x xr lr by (simp add: get_or_def)
  have "topics x = Some [str ''prayer'']" using xt by (simp add: prayer_def)
  moreover have "ruling x = Some (str ''Narrated Aisha:'' @ [10, 10] @ str ''The Prophet said ...'')"
    using xr by (simp add: raw_def nar_def said_def)
  ultimately show ?thesis using cv by blast
qed

lemma example_ruling_cleaned:
  "clean_text (str ''Narrated Aisha:'' @ [10, 10] @ str ''The Prophet said ...'') =
     str ''Narrated Aisha: The Prophet said ...''"
  by (simp add: clean_text_def replace_def strip_def is_space_def quote_old_def)

lemma prayer_normal:
  assumes "lowers_ascii lower"
  shows "normalize_topic lower (str ''prayer'') = str ''prayer''"
proof -
  have "normalize_topic lower (str ''prayer'') = normalize_topic ascii_lower (str ''prayer'')"
    using assms by (rule normalize_topic_ascii) simp
  then show ?thesis
    by (simp add: normalize_topic_def normalizations_def strip_def ascii_lower_def is_space_def)
qed

lemma process_hadiths_single:
  assumes "topics x = Some [t]" and "normalize_topic lower t = t" and "ruling x = Some r"
    and "clean_text r = c" and "20 \<le> length c"
  shows "map (\<lambda>y. (topics y, ruling y)) (process_hadiths lower uuid4 extract n [x]) = [(Some [t], Some c)]"
  using assms by (auto simp: get_or_def Let_def)

lemma bukhari_info:
  "map_of COLLECTION_INFO (str ''bukhari'') =
     Some \<lparr>english_name = str ''Sahih al-Bukhari'',
           arabic_name = [1589, 1581, 1610, 1581, 32, 1575, 1604, 1576, 1582, 1575, 1585, 1610],
           author = str ''Imam Muhammad ibn Ismail al-Bukhari'',
           info_authenticity = str ''sahih'',
           info_collection = str ''Kutub al-Sittah'',
           url_base = str ''https://sunnah.com/bukhari''\<rparr>"
  by (simp add: COLLECTION_INFO_def)

text \<open>
  Claim C9, as amended. With a case mapping that lower-cases ASCII strings as the runtime
  does, and for every collection of the table, the converter gives the example hadith
  the topics \<open>['prayer']\<close> and the ruling \<open>Narrated Aisha:\<close>, a blank line and
  \<open>The Prophet said ...\<close>; in the processed corpus the topics are the same and the ruling
  is \<open>Narrated Aisha: The Prophet said ...\<close>, the blank line collapsed into one space.
\<close>

theorem example_hadith_raw_and_processed:
  assumes "lowers_ascii lower" and "map_of COLLECTION_INFO collection_key = Some info"
  shows "map (\<lambda>x. (topics x, ruling x))
           (convert_hadiths lower collection_key example_chapters [example_hadith]) =
         [(Some [str ''prayer''],
           Some (str ''Narrated Aisha:'' @ [10, 10] @ str ''The Prophet said ...''))] \<and>
         map (\<lambda>x. (topics x, ruling x))
           (process_hadith_file lower uuid4 extract
              (Some (convert_hadiths lower collection_key example_chapters [example_hadith]))) =
         [(Some [str ''prayer''], Some (str ''Narrated Aisha: The Prophet said ...''))]"
proof -
  from example_hadith_converted[OF assms] obtain x
    where cv: "convert_hadiths lower collection_key example_chapters [example_hadith] = [x]"
      and xt: "topics x = Some [str ''prayer'']"
      and xr: "ruling x = Some (str ''Narrated Aisha:'' @ [10, 10] @ str ''The Prophet said ...'')"
    by blast
  have raw: "map (\<lambda>x. (topics x, ruling x))
           (convert_hadiths lower collection_key example_chapters [example_hadith]) =
         [(Some [str ''prayer''],
           Some (str ''Narrated Aisha:'' @ [10, 10] @ str ''The Prophet said ...''))]"
    unfolding cv using xt xr by simp
  have len: "20 \<le> length (str ''Narrated Aisha: The Prophet said ...'')" by simp
  have "map (\<lambda>y. (topics y, ruling y)) (process_hadiths lower uuid4 extract 0 [x]) =
          [(Some [str ''prayer''], Some (str ''Narrated Aisha: The Prophet said ...''))]"
    using xt prayer_normal[OF assms(1)] xr example_ruling_cleaned len
    by (rule process_hadiths_single)
  then have processed: "map (\<lambda>x. (topics x, ruling x))
           (process_hadith_file lower uuid4 extract
              (Some (convert_hadiths lower collection_key example_chapters [example_hadith]))) =
         [(Some [str ''prayer''], Some (str ''Narrated Aisha: The Prophet said ...''))]"
    unfolding cv by (simp add: process_hadith_file_def)
  from raw processed show ?thesis by (rule conjI)
qed

text \<open>
  Claim C9, an instance of the amended property: the hadith taken from Sahih al-Bukhari,
  its ASCII strings lower-cased as the runtime lower-cases them.
\<close>

theorem example_hadith_raw_and_processed_witness:
  "lowers_ascii ascii_lower \<and>
   map (\<lambda>x. (topics x, ruling x))
     (convert_hadiths ascii_lower (str ''bukhari'') example_chapters [example_hadith]) =
   [(Some [str ''prayer''],
     Some (str ''Narrated Aisha:'' @ [10, 10] @ str ''The Prophet said ...''))] \<and>
   map (\<lambda>x. (topics x, ruling x))
     (process_hadith_file ascii_lower (\<lambda>n. str ''uuid'') (\<lambda>t. [])
        (Some (convert_hadiths ascii_lower (str ''bukhari'') example_chapters [example_hadith]))) =
   [(Some [str ''prayer''], Some (str ''Narrated Aisha: The Prophet said ...''))]"
  using lowers_ascii_ascii_lower
    example_hadith_raw_and_processed[OF lowers_ascii_ascii_lower bukhari_info]
  by (rule conjI)

text \<open>
  Claim C9, as stated, fails: in the processed corpus the ruling of the example does not
  begin with the narrator, a blank line and the text. \<open>clean_text\<close> has turned the two line
  feeds into one space.
\<close>

theorem example_hadith_processed_ruling:
  "map ruling
     (process_hadith_file ascii_lower (\<lambda>n. str ''uuid'') (\<lambda>t. [])
        (Some (convert_hadiths ascii_lower (str ''bukhari'') example_chapters [example_hadith]))) =
   [Some (str ''Narrated Aisha: The Prophet said ...'')] \<and>
   \<not> prefix (str ''Narrated Aisha:'' @ [10, 10] @ str ''The Prophet said ...'')
        (str ''Narrated Aisha: The Prophet said ...'')"
proof -
  from example_hadith_converted[OF lowers_ascii_ascii_lower bukhari_info] obtain x
    where cv: "convert_hadiths ascii_lower (str ''bukhari'') example_chapters [example_hadith] = [x]"
      and xt: "topics x = Some [str ''prayer'']"
      and xr: "ruling x = Some (str ''Narrated Aisha:'' @ [10, 10] @ str ''The Prophet said ...'')"
    by blast
  have len: "20 \<le> length (str ''Narrated Aisha: The Prophet said ...'')" by simp
  have "map (\<lambda>y. (topics y, ruling y)) (process_hadiths ascii_lower (\<lambda>n. str ''uuid'') (\<lambda>t. []) 0 [x]) =
          [(Some [str ''prayer''], Some (str ''Narrated Aisha: The Prophet said ...''))]"
    using xt prayer_normal[OF lowers_ascii_ascii_lower] xr example_ruling_cleaned len
    by (rule process_hadiths_single)
  then have "map snd (map (\<lambda>y. (topics y, ruling y))
                (process_hadiths ascii_lower (\<lambda>n. str ''uuid'') (\<lambda>t. []) 0 [x])) =
          map snd [(Some [str ''prayer''], Some (str ''Narrated Aisha: The Prophet said ...''))]"
    by (rule arg_cong)
  then have a: "map ruling
     (process_hadith_file ascii_lower (\<lambda>n. str ''uuid'') (\<lambda>t. [])
        (Some (convert_hadiths ascii_lower (str ''bukhari'') example_chapters [example_hadith]))) =
     [Some (str ''Narrated Aisha: The Prophet said ...'')]"
    unfolding cv by (simp add: process_hadith_file_def comp_def)
  have b: "\<not> prefix (str ''Narrated Aisha:'' @ [10, 10] @ str ''The Prophet said ...'')
        (str ''Narrated Aisha: The Prophet said ...'')"
    by simp
  from a b show ?thesis by (rule conjI)
qed

section \<open>The batch indexer: properties\<close>

lemma chunks_Nil [simp]: "chunks n [] = []"
  by (simp add: chunks.simps)

lemma chunks_step: "0 < n \<Longrightarrow> xs \<noteq> [] \<Longrightarrow> chunks n xs = take n xs # chunks n (drop n xs)"
  by (subst chunks.simps) simp

lemma chunks_zero [simp]: "chunks 0 xs = []"
  by (simp add: chunks.simps)

lemma batch_loop_run_batches:
  "BATCH_SIZE dvd i \<Longrightarrow>
   batch_loop e pending i r = run_batches e (i div BATCH_SIZE) (chunks BATCH_SIZE (drop i pending)) r"
proof (induction e pending i r rule: batch_loop.induct)
  case (1 e pending i r)
  show ?case
  proof (cases "i < length pending")
    case False
    then show ?thesis by (subst batch_loop.simps) simp
  next
    case True
    then have ne: "drop i pending \<noteq> []" by simp
    have ch: "chunks BATCH_SIZE (drop i pending) =
        take BATCH_SIZE (drop i pending) # chunks BATCH_SIZE (drop (i + BATCH_SIZE) pending)"
      using ne by (subst chunks.simps) (simp add: BATCH_SIZE_def add.commute)
    have dv: "BATCH_SIZE dvd i + BATCH_SIZE" using "1.prems" by simp
    have sk: "(i + BATCH_SIZE) div BATCH_SIZE = Suc (i div BATCH_SIZE)"
      by (simp add: BATCH_SIZE_def)
    show ?thesis
    proof (cases "generate_embeddings_openai e (i div BATCH_SIZE)
                    (map create_embedding_text (take BATCH_SIZE (drop i pending)))")
      case None
      then show ?thesis using True ch
        by (subst batch_loop.simps) (simp add: texts_of_def)
    next
      case (Some embeddings)
      obtain cs res where a: "add_to_chromadb e (i div BATCH_SIZE) (store r)
          (take BATCH_SIZE (drop i pending)) embeddings = (cs, res)"
        by (cases "add_to_chromadb e (i div BATCH_SIZE) (store r)
          (take BATCH_SIZE (drop i pending)) embeddings") auto
      show ?thesis
      proof (cases res)
        case None
        then show ?thesis using True ch Some a
          by (subst batch_loop.simps) (simp add: texts_of_def)
      next
        case (Some coll')
        have "batch_loop e pending (i + BATCH_SIZE)
               (r\<lparr>store := coll', calls := calls r @
                  [Embed (map create_embedding_text (take BATCH_SIZE (drop i pending)))] @ cs @ [Sleep]\<rparr>) =
              run_batches e ((i + BATCH_SIZE) div BATCH_SIZE)
               (chunks BATCH_SIZE (drop (i + BATCH_SIZE) pending))
               (r\<lparr>store := coll', calls := calls r @
                  [Embed (map create_embedding_text (take BATCH_SIZE (drop i pending)))] @ cs @ [Sleep]\<rparr>)"
          using "1.IH"[OF True refl refl \<open>generate_embeddings_openai e (i div BATCH_SIZE)
                    (map create_embedding_text (take BATCH_SIZE (drop i pending))) = Some embeddings\<close>
                 a[symmetric] Some dv] .
        then show ?thesis using True ch \<open>generate_embeddings_openai e (i div BATCH_SIZE)
                    (map create_embedding_text (take BATCH_SIZE (drop i pending))) = Some embeddings\<close> a Some sk
          by (subst batch_loop.simps) (simp add: texts_of_def)
      qed
    qed
  qed
qed


lemma embed_calls_append: "embed_calls (xs @ ys) = embed_calls xs @ embed_calls ys"
  by (induction xs rule: embed_calls.induct) auto

lemma add_calls_append: "add_calls (xs @ ys) = add_calls xs @ add_calls ys"
  by (induction xs rule: add_calls.induct) auto

lemma entry_ids_Some:
  "\<forall>x\<in>set b. entry_id x \<noteq> None \<Longrightarrow> entry_ids b = Some (ids_of b)"
  by (induction b) (auto simp: ids_of_def get_or_def)

lemma keys_fold_update:
  "set (map fst (fold (\<lambda>(i, item) c. AList.update i item c) kvs coll)) =
   set (map fst coll) \<union> set (map fst kvs)"
proof (induction kvs arbitrary: coll)
  case Nil
  then show ?case by simp
next
  case (Cons kv kvs)
  obtain i item where kv: "kv = (i, item)" by (cases kv)
  have "fst ` set (AList.update i item coll) = {i} \<union> fst ` set coll"
    by (rule dom_update)
  with Cons kv show ?case by auto
qed

lemma collection_add_keys:
  assumes "collection_add fails coll ids embeddings documents metadatas = Some coll'"
    and "length documents = length ids" and "length metadatas = length ids"
  shows "set (collection_ids coll') = set (collection_ids coll) \<union> set ids"
proof -
  from assms(1) have len: "length embeddings = length ids"
    and c: "coll' = fold (\<lambda>(i, item) c. AList.update i item c)
                  (zip ids (zip embeddings (zip documents metadatas))) coll"
    by (auto simp: collection_add_def split: if_splits)
  have "length (zip embeddings (zip documents metadatas)) = length ids"
    using len assms(2,3) by simp
  then have "map fst (zip ids (zip embeddings (zip documents metadatas))) = ids"
    by (simp add: map_fst_zip)
  then show ?thesis
    unfolding collection_ids_def c keys_fold_update by simp
qed

lemma add_to_chromadb_ok:
  assumes "\<forall>x\<in>set b. entry_id x \<noteq> None" and "\<not> add_fails e k" and "length embeddings = length b"
  shows "\<exists>documents metadatas coll'.
           add_to_chromadb e k coll b embeddings = ([Add (ids_of b) embeddings documents metadatas], Some coll') \<and>
           set (collection_ids coll') = set (collection_ids coll) \<union> set (ids_of b)"
proof -
  let ?d = "map (\<lambda>entry'. take 1000 (get_or (ruling entry') [])) b"
  let ?m = "map entry_metadata b"
  have l: "length (ids_of b) = length b" by (simp add: ids_of_def)
  obtain coll' where c: "collection_add (add_fails e k) coll (ids_of b) embeddings ?d ?m = Some coll'"
    using assms(2,3) l by (simp add: collection_add_def)
  have "set (collection_ids coll') = set (collection_ids coll) \<union> set (ids_of b)"
    using c l by (intro collection_add_keys[OF c]) simp_all
  moreover have "add_to_chromadb e k coll b embeddings = ([Add (ids_of b) embeddings ?d ?m], Some coll')"
    using c entry_ids_Some[OF assms(1)] by (simp add: add_to_chromadb_def)
  ultimately show ?thesis by blast
qed

lemma add_to_chromadb_fail:
  assumes "\<forall>x\<in>set b. entry_id x \<noteq> None" and "add_fails e k \<or> length embeddings \<noteq> length b"
  shows "\<exists>documents metadatas.
           add_to_chromadb e k coll b embeddings = ([Add (ids_of b) embeddings documents metadatas], None)"
proof -
  have l: "length (ids_of b) = length b" by (simp add: ids_of_def)
  show ?thesis using assms(2) l entry_ids_Some[OF assms(1)]
    by (auto simp: add_to_chromadb_def collection_add_def)
qed

lemma run_batches_ok:
  assumes "batches_ok e k bs" and "\<forall>b\<in>set bs. \<forall>x\<in>set b. entry_id x \<noteq> None"
  shows "stopped (run_batches e k bs r) = stopped r \<and>
         embed_calls (calls (run_batches e k bs r)) = embed_calls (calls r) @ map texts_of bs \<and>
         add_calls (calls (run_batches e k bs r)) = add_calls (calls r) @ map ids_of bs \<and>
         set (collection_ids (store (run_batches e k bs r))) =
           set (collection_ids (store r)) \<union> set (ids_of (concat bs))"
  using assms
proof (induction bs arbitrary: k r)
  case Nil
  then show ?case by (simp add: ids_of_def)
next
  case (Cons b bs)
  from Cons.prems(1) have ok: "batch_ok e k b" and rest: "batches_ok e (Suc k) bs" by simp_all
  from ok obtain embeddings where em: "embed e k (texts_of b) = Some embeddings"
    and nf: "\<not> add_fails e k" and len: "length embeddings = length b"
    by (auto simp: batch_ok_def split: option.splits)
  from Cons.prems(2) have idb: "\<forall>x\<in>set b. entry_id x \<noteq> None" by simp
  from add_to_chromadb_ok[OF idb nf len, of "store r"]
  obtain documents metadatas coll' where
    a: "add_to_chromadb e k (store r) b embeddings = ([Add (ids_of b) embeddings documents metadatas], Some coll')"
    and keys: "set (collection_ids coll') = set (collection_ids (store r)) \<union> set (ids_of b)"
    by blast
  let ?r = "r\<lparr>store := coll', calls := calls r @ [Embed (texts_of b)] @
                 [Add (ids_of b) embeddings documents metadatas] @ [Sleep]\<rparr>"
  have step: "run_batches e k (b # bs) r = run_batches e (Suc k) bs ?r"
    using em a by (simp add: generate_embeddings_openai_def)
  have ih: "stopped (run_batches e (Suc k) bs ?r) = stopped ?r \<and>
         embed_calls (calls (run_batches e (Suc k) bs ?r)) = embed_calls (calls ?r) @ map texts_of bs \<and>
         add_calls (calls (run_batches e (Suc k) bs ?r)) = add_calls (calls ?r) @ map ids_of bs \<and>
         set (collection_ids (store (run_batches e (Suc k) bs ?r))) =
           set (collection_ids (store ?r)) \<union> set (ids_of (concat bs))"
    using Cons.IH[OF rest] Cons.prems(2) by simp
  show ?case unfolding step using ih keys
    by (auto simp: embed_calls_append add_calls_append ids_of_def)
qed

lemma run_batches_stopped: "stopped r \<Longrightarrow> stopped (run_batches e k bs r)"
  by (induction bs arbitrary: k r) (auto split: option.splits prod.splits)

lemma run_batches_complete:
  assumes "\<not> stopped (run_batches e k bs r)" and "\<forall>b\<in>set bs. \<forall>x\<in>set b. entry_id x \<noteq> None"
  shows "batches_ok e k bs"
  using assms
proof (induction bs arbitrary: k r)
  case Nil
  then show ?case by simp
next
  case (Cons b bs)
  from Cons.prems(2) have idb: "\<forall>x\<in>set b. entry_id x \<noteq> None" by simp
  show ?case
  proof (cases "embed e k (texts_of b)")
    case None
    with Cons.prems(1) show ?thesis by (simp add: generate_embeddings_openai_def)
  next
    case (Some embeddings)
    show ?thesis
    proof (cases "add_fails e k \<or> length embeddings \<noteq> length b")
      case True
      from add_to_chromadb_fail[OF idb True, of "store r"] Some Cons.prems(1)
      show ?thesis by (auto simp: generate_embeddings_openai_def)
    next
      case False
      then have nf: "\<not> add_fails e k" and len: "length embeddings = length b" by auto
      from add_to_chromadb_ok[OF idb nf len, of "store r"]
      obtain documents metadatas coll' where
        a: "add_to_chromadb e k (store r) b embeddings =
             ([Add (ids_of b) embeddings documents metadatas], Some coll')"
        by blast
      from Cons.prems(1) Some a
      have "\<not> stopped (run_batches e (Suc k) bs
               (r\<lparr>store := coll', calls := calls r @ [Embed (texts_of b)] @
                 [Add (ids_of b) embeddings documents metadatas] @ [Sleep]\<rparr>))"
        by (simp add: generate_embeddings_openai_def)
      then have "batches_ok e (Suc k) bs" using Cons.IH Cons.prems(2) by auto
      moreover have "batch_ok e k b" using Some nf len by (simp add: batch_ok_def)
      ultimately show ?thesis by simp
    qed
  qed
qed

lemma run_batches_fail:
  assumes "batches_ok e k bs1" and "\<not> batch_ok e (k + length bs1) b"
    and "\<forall>b\<in>set (bs1 @ [b]). \<forall>x\<in>set b. entry_id x \<noteq> None"
  shows "stopped (run_batches e k (bs1 @ b # bs2) r) \<and>
         store (run_batches e k (bs1 @ b # bs2) r) = store (run_batches e k bs1 r) \<and>
         embed_calls (calls (run_batches e k (bs1 @ b # bs2) r)) =
           embed_calls (calls r) @ map texts_of (bs1 @ [b]) \<and>
         add_calls (calls (run_batches e k (bs1 @ b # bs2) r)) =
           add_calls (calls r) @ map ids_of bs1 @
           (if embed e (k + length bs1) (texts_of b) = None then [] else [ids_of b])"
  using assms
proof (induction bs1 arbitrary: k r)
  case Nil
  from Nil.prems(3) have idb: "\<forall>x\<in>set b. entry_id x \<noteq> None" by simp
  from Nil.prems(2) have nok: "\<not> batch_ok e k b" by simp
  show ?case
  proof (cases "embed e k (texts_of b)")
    case None
    then show ?thesis
      by (simp add: generate_embeddings_openai_def embed_calls_append add_calls_append)
  next
    case (Some embeddings)
    with nok have "add_fails e k \<or> length embeddings \<noteq> length b"
      by (auto simp: batch_ok_def)
    from add_to_chromadb_fail[OF idb this, of "store r"] Some
    show ?thesis
      by (auto simp: generate_embeddings_openai_def embed_calls_append add_calls_append)
  qed
next
  case (Cons a bs1)
  from Cons.prems(1) have ok: "batch_ok e k a" and rest: "batches_ok e (Suc k) bs1" by simp_all
  from ok obtain embeddings where em: "embed e k (texts_of a) = Some embeddings"
    and nf: "\<not> add_fails e k" and len: "length embeddings = length a"
    by (auto simp: batch_ok_def split: option.splits)
  from Cons.prems(3) have ida: "\<forall>x\<in>set a. entry_id x \<noteq> None" by simp
  from add_to_chromadb_ok[OF ida nf len, of "store r"]
  obtain documents metadatas coll' where
    a: "add_to_chromadb e k (store r) a embeddings = ([Add (ids_of a) embeddings documents metadatas], Some coll')"
    by blast
  let ?r = "r\<lparr>store := coll', calls := calls r @ [Embed (texts_of a)] @
                 [Add (ids_of a) embeddings documents metadatas] @ [Sleep]\<rparr>"
  have step1: "run_batches e k ((a # bs1) @ b # bs2) r = run_batches e (Suc k) (bs1 @ b # bs2) ?r"
    using em a by (simp add: generate_embeddings_openai_def)
  have step2: "run_batches e k (a # bs1) r = run_batches e (Suc k) bs1 ?r"
    using em a by (simp add: generate_embeddings_openai_def)
  have nok: "\<not> batch_ok e (Suc k + length bs1) b" using Cons.prems(2) by simp
  have ids: "\<forall>b\<in>set (bs1 @ [b]). \<forall>x\<in>set b. entry_id x \<noteq> None" using Cons.prems(3) by simp
  from Cons.IH[OF rest nok ids, of ?r]
  show ?case unfolding step1 step2
    by (simp add: embed_calls_append add_calls_append)
qed



lemma concat_chunks: "0 < n \<Longrightarrow> concat (chunks n xs) = xs"
proof (induction n xs rule: chunks.induct)
  case (1 n xs)
  show ?case
  proof (cases "xs = []")
    case True
    then show ?thesis by simp
  next
    case False
    with 1 show ?thesis by (simp add: chunks_step)
  qed
qed

lemma concat_take_chunks: "0 < n \<Longrightarrow> concat (take j (chunks n xs)) = take (j * n) xs"
proof (induction j arbitrary: xs)
  case 0
  then show ?case by simp
next
  case (Suc j)
  show ?case
  proof (cases "xs = []")
    case True
    then show ?thesis by simp
  next
    case False
    have "concat (take (Suc j) (chunks n xs)) = take n xs @ concat (take j (chunks n (drop n xs)))"
      using False Suc.prems by (simp add: chunks_step)
    also have "\<dots> = take n xs @ take (j * n) (drop n xs)" using Suc by simp
    also have "\<dots> = take (n + j * n) xs" by (simp add: take_add)
    finally show ?thesis by simp
  qed
qed

lemma set_chunks: "b \<in> set (chunks n xs) \<Longrightarrow> set b \<subseteq> set xs"
proof (induction n xs rule: chunks.induct)
  case (1 n xs)
  show ?case
  proof (cases "n = 0 \<or> xs = []")
    case True
    with 1 show ?thesis by auto
  next
    case False
    then have c: "chunks n xs = take n xs # chunks n (drop n xs)" by (simp add: chunks_step)
    from "1.prems" c have "b = take n xs \<or> b \<in> set (chunks n (drop n xs))" by simp
    then show ?thesis
    proof
      assume "b = take n xs"
      then show ?thesis by (auto dest: in_set_takeD)
    next
      assume "b \<in> set (chunks n (drop n xs))"
      then have "set b \<subseteq> set (drop n xs)" using "1.IH" False by simp
      then show ?thesis by (auto dest: in_set_dropD)
    qed
  qed
qed

lemma add_to_chromadb_ok_calls:
  assumes "\<forall>x\<in>set b. entry_id x \<noteq> None" and "\<not> add_fails e k" and "length embeddings = length b"
  shows "\<exists>coll'. add_to_chromadb e k coll b embeddings =
           ([Add (ids_of b) embeddings (documents_of b) (map entry_metadata b)], Some coll')"
proof -
  have l: "length (ids_of b) = length b" by (simp add: ids_of_def)
  obtain coll' where c: "collection_add (add_fails e k) coll (ids_of b) embeddings
      (documents_of b) (map entry_metadata b) = Some coll'"
    using assms(2,3) l by (simp add: collection_add_def)
  then have "add_to_chromadb e k coll b embeddings =
      ([Add (ids_of b) embeddings (documents_of b) (map entry_metadata b)], Some coll')"
    using entry_ids_Some[OF assms(1)] by (simp add: add_to_chromadb_def documents_of_def)
  then show ?thesis by blast
qed

lemma run_batches_ok_calls:
  assumes "batches_ok e k bs" and "\<forall>b\<in>set bs. \<forall>x\<in>set b. entry_id x \<noteq> None"
  shows "calls (run_batches e k bs r) =
           calls r @ concat (map (\<lambda>(n, batch). batch_calls e n batch) (enumerate k bs))"
  using assms
proof (induction bs arbitrary: k r)
  case Nil
  then show ?case by simp
next
  case (Cons b bs)
  from Cons.prems(1) have ok: "batch_ok e k b" and rest: "batches_ok e (Suc k) bs" by simp_all
  from ok obtain embeddings where em: "embed e k (texts_of b) = Some embeddings"
    and nf: "\<not> add_fails e k" and len: "length embeddings = length b"
    by (auto simp: batch_ok_def split: option.splits)
  from Cons.prems(2) have idb: "\<forall>x\<in>set b. entry_id x \<noteq> None" by simp
  from add_to_chromadb_ok_calls[OF idb nf len, of "store r"]
  obtain coll' where
    a: "add_to_chromadb e k (store r) b embeddings =
          ([Add (ids_of b) embeddings (documents_of b) (map entry_metadata b)], Some coll')"
    by blast
  let ?r = "r\<lparr>store := coll', calls := calls r @ [Embed (texts_of b)] @
                 [Add (ids_of b) embeddings (documents_of b) (map entry_metadata b)] @ [Sleep]\<rparr>"
  have step: "run_batches e k (b # bs) r = run_batches e (Suc k) bs ?r"
    using em a by (simp add: generate_embeddings_openai_def)
  have "calls (run_batches e (Suc k) bs ?r) =
          calls ?r @ concat (map (\<lambda>(n, batch). batch_calls e n batch) (enumerate (Suc k) bs))"
    using Cons.IH[OF rest] Cons.prems(2) by simp
  then show ?case unfolding step using em
    by (simp add: batch_calls_def get_or_def)
qed

lemma pending_ids:
  assumes "entries_to_process e coll entries = Inr pending"
  shows "\<forall>x\<in>set entries. entry_id x \<noteq> None"
    and "pending = filter (\<lambda>x. case entry_id x of None \<Rightarrow> False
                                | Some i \<Rightarrow> i \<notin> set (existing_ids e coll)) entries"
  using assms by (auto simp: entries_to_process_def list_ex_iff split: if_splits)

lemma main_index_run:
  assumes "entries_to_process e coll entries = Inr pending"
  shows "main_index e coll entries =
           Inr (if pending = [] then \<lparr>store = coll, calls = [Get], stopped = False\<rparr>
                else (run_batches e 0 (chunks BATCH_SIZE pending)
                        \<lparr>store = coll, calls = [Get], stopped = False\<rparr>)
                     \<lparr>calls := calls (run_batches e 0 (chunks BATCH_SIZE pending)
                        \<lparr>store = coll, calls = [Get], stopped = False\<rparr>) @ [Count]\<rparr>)"
  using assms batch_loop_run_batches[of 0 e pending "\<lparr>store = coll, calls = [Get], stopped = False\<rparr>"]
  by (simp add: main_index_def Let_def)

lemma pending_has_ids:
  assumes "entries_to_process e coll entries = Inr pending"
  shows "\<forall>b\<in>set (chunks n pending). \<forall>x\<in>set b. entry_id x \<noteq> None"
proof -
  have "\<forall>x\<in>set pending. entry_id x \<noteq> None"
    using pending_ids[OF assms] by auto
  then show ?thesis using set_chunks by blast
qed

lemma existing_ids_subset: "set (existing_ids e coll) \<subseteq> set (collection_ids coll)"
  by (simp add: existing_ids_def)

lemma run1_indexes_all:
  assumes run1: "main_index e1 coll entries = Inr r1"
    and complete: "\<not> stopped r1"
  shows "\<forall>x\<in>set entries. \<exists>i. entry_id x = Some i \<and> i \<in> set (collection_ids (store r1))"
proof -
  from run1 obtain pending where p: "entries_to_process e1 coll entries = Inr pending"
    by (auto simp: main_index_def split: sum.splits)
  note ids = pending_ids[OF p]
  let ?init = "\<lparr>store = coll, calls = [Get], stopped = False\<rparr> :: 'a run"
  let ?bs = "chunks BATCH_SIZE pending"
  have keys: "set (collection_ids (store r1)) = set (collection_ids coll) \<union> set (ids_of pending)"
  proof (cases "pending = []")
    case True
    with run1 main_index_run[OF p]
    have "r1 = \<lparr>store = coll, calls = [Get], stopped = False\<rparr>" by simp
    then show ?thesis using True by (simp add: ids_of_def)
  next
    case False
    with run1 main_index_run[OF p]
    have r1: "r1 = (run_batches e1 0 ?bs ?init)\<lparr>calls := calls (run_batches e1 0 ?bs ?init) @ [Count]\<rparr>"
      by simp
    then have ns: "\<not> stopped (run_batches e1 0 ?bs ?init)" using complete by simp
    have ok: "batches_ok e1 0 ?bs"
      using run_batches_complete[OF ns pending_has_ids[OF p]] .
    from run_batches_ok[OF ok pending_has_ids[OF p], of ?init]
    have "set (collection_ids (store (run_batches e1 0 ?bs ?init))) =
            set (collection_ids coll) \<union> set (ids_of (concat ?bs))" by simp
    then show ?thesis using r1 by (simp add: concat_chunks BATCH_SIZE_def)
  qed
  show ?thesis
  proof
    fix x assume x: "x \<in> set entries"
    with ids(1) obtain i where i: "entry_id x = Some i" by auto
    show "\<exists>i. entry_id x = Some i \<and> i \<in> set (collection_ids (store r1))"
    proof (cases "x \<in> set pending")
      case True
      then have "i \<in> set (ids_of pending)" using i by (force simp: ids_of_def get_or_def)
      with keys i show ?thesis by simp
    next
      case False
      with x ids(2) i have "i \<in> set (existing_ids e1 coll)" by auto
      with existing_ids_subset keys i show ?thesis by blast
    qed
  qed
qed

lemma entries_to_process_get_ok:
  assumes "\<not> get_fails e2" and "\<forall>x\<in>set entries. entry_id x \<noteq> None"
  shows "entries_to_process e2 c entries = Inr (filter (not_indexed c) entries)"
proof -
  have "\<not> list_ex (\<lambda>entry'. entry_id entry' = None) entries"
    using assms(2) by (auto simp: list_ex_iff)
  moreover have "existing_ids e2 c = collection_ids c"
    using assms(1) by (simp add: existing_ids_def)
  ultimately show ?thesis
    unfolding entries_to_process_def not_indexed_def by (simp cong: option.case_cong)
qed

lemma entries_to_process_all:
  assumes "\<forall>x\<in>set entries. entry_id x \<noteq> None" and "existing_ids e coll = []"
  shows "entries_to_process e coll entries = Inr entries"
proof -
  have "\<not> list_ex (\<lambda>entry'. entry_id entry' = None) entries"
    using assms(1) by (auto simp: list_ex_iff)
  moreover have "filter (\<lambda>entry'. case entry_id entry' of None \<Rightarrow> False
        | Some i \<Rightarrow> i \<notin> set (existing_ids e coll)) entries = entries"
    using assms by (auto simp: filter_id_conv)
  ultimately show ?thesis by (simp add: entries_to_process_def)
qed

lemma main_index_completes:
  assumes p: "entries_to_process e coll entries = Inr pending"
    and ok: "batches_ok e 0 (chunks BATCH_SIZE pending)"
  shows "\<exists>r. main_index e coll entries = Inr r \<and> \<not> stopped r"
proof -
  let ?init = "\<lparr>store = coll, calls = [Get], stopped = False\<rparr> :: 'a run"
  have "\<not> stopped (run_batches e 0 (chunks BATCH_SIZE pending) ?init)"
    using run_batches_ok[OF ok pending_has_ids[OF p], of ?init] by simp
  then show ?thesis using main_index_run[OF p] by simp
qed

lemma chunks_250:
  assumes "length xs = 250"
  shows "chunks 100 xs = [take 100 xs, take 100 (drop 100 xs), drop 200 xs]"
proof -
  have 1: "chunks 100 xs = take 100 xs # chunks 100 (drop 100 xs)"
    using assms by (intro chunks_step) auto
  have 2: "chunks 100 (drop 100 xs) = take 100 (drop 100 xs) # chunks 100 (drop 100 (drop 100 xs))"
    using assms by (intro chunks_step) auto
  have 3: "chunks 100 (drop 100 (drop 100 xs)) =
             take 100 (drop 100 (drop 100 xs)) # chunks 100 (drop 100 (drop 100 (drop 100 xs)))"
    using assms by (intro chunks_step) auto
  have 4: "drop 100 (drop 100 (drop 100 xs)) = []" using assms by simp
  have 5: "take 100 (drop 100 (drop 100 xs)) = drop 200 xs" using assms by simp
  show ?thesis unfolding 1 2 3 4 5 by simp
qed

lemma concat_map_texts_of: "concat (map texts_of bs) = texts_of (concat bs)"
  by (induction bs) (simp_all add: texts_of_def)

lemma concat_map_ids_of: "concat (map ids_of bs) = ids_of (concat bs)"
  by (induction bs) (simp_all add: ids_of_def)

lemma run_batches_embed_prefix:
  "prefix (embed_calls (calls r)) (embed_calls (calls (run_batches e k bs r)))"
proof (induction bs arbitrary: k r)
  case Nil
  then show ?case by simp
next
  case (Cons b bs)
  show ?case
  proof (cases "generate_embeddings_openai e k (texts_of b)")
    case None
    then show ?thesis by (simp add: embed_calls_append)
  next
    case (Some embeddings)
    obtain cs res where a: "add_to_chromadb e k (store r) b embeddings = (cs, res)"
      by (cases "add_to_chromadb e k (store r) b embeddings") auto
    show ?thesis
    proof (cases res)
      case None
      with Some a show ?thesis by (simp add: embed_calls_append)
    next
      case (Some coll')
      let ?res = "r\<lparr>store := coll', calls := calls r @ [Embed (texts_of b)] @ cs @ [Sleep]\<rparr>"
      have "prefix (embed_calls (calls r)) (embed_calls (calls ?res))"
        by (simp add: embed_calls_append)
      also have "prefix (embed_calls (calls ?res)) (embed_calls (calls (run_batches e (Suc k) bs ?res)))"
        by (rule Cons.IH)
      finally show ?thesis
        using \<open>generate_embeddings_openai e k (texts_of b) = Some embeddings\<close> a Some by simp
    qed
  qed
qed

lemma run_batches_first_embed:
  "prefix (embed_calls (calls r) @ [texts_of b]) (embed_calls (calls (run_batches e k (b # bs) r)))"
proof (cases "generate_embeddings_openai e k (texts_of b)")
  case None
  then show ?thesis by (simp add: embed_calls_append)
next
  case (Some embeddings)
  obtain cs res where a: "add_to_chromadb e k (store r) b embeddings = (cs, res)"
    by (cases "add_to_chromadb e k (store r) b embeddings") auto
  have ecs: "embed_calls cs = []"
    using a by (auto simp: add_to_chromadb_def Let_def split: option.splits)
  show ?thesis
  proof (cases res)
    case None
    with Some a ecs show ?thesis by (simp add: embed_calls_append)
  next
    case (Some coll')
    let ?res = "r\<lparr>store := coll', calls := calls r @ [Embed (texts_of b)] @ cs @ [Sleep]\<rparr>"
    have "embed_calls (calls ?res) = embed_calls (calls r) @ [texts_of b]"
      using ecs by (simp add: embed_calls_append)
    then have "prefix (embed_calls (calls r) @ [texts_of b])
                 (embed_calls (calls (run_batches e (Suc k) bs ?res)))"
      using run_batches_embed_prefix[of ?res e "Suc k" bs] by simp
    then show ?thesis
      using \<open>generate_embeddings_openai e k (texts_of b) = Some embeddings\<close> a Some by simp
  qed
qed

lemma batches_ok_good_env: "batches_ok (good_env gf) k bs"
  by (induction bs arbitrary: k) (simp_all add: batch_ok_def good_env_def texts_of_def)

lemma demo_entries_ids: "\<forall>x\<in>set demo_entries. entry_id x \<noteq> None"
  unfolding demo_entries_def set_map
  by (rule ballI, erule imageE, simp add: demo_entry_def)

lemma length_demo_entries: "length demo_entries = 250"
  unfolding demo_entries_def by (simp only: length_map length_upt)

text \<open>
  Claim C1. When a run over \<open>entries\<close> has gone through all its batches (it did not stop
  on a failure) and \<open>collection.get()\<close> succeeds in the next run over the same entries,
  then in that run nothing is pending, the only call is the query for the ids (no
  provider call, no write), and the collection and its count are what they were.
\<close>

theorem rerun_is_noop:
  assumes run1: "main_index e1 coll entries = Inr r1"
    and complete: "\<not> stopped r1"
    and get2: "\<not> get_fails e2"
  shows "entries_to_process e2 (store r1) entries = Inr [] \<and>
         (\<exists>r2. main_index e2 (store r1) entries = Inr r2 \<and> calls r2 = [Get] \<and>
            embed_calls (calls r2) = [] \<and> add_calls (calls r2) = [] \<and> \<not> stopped r2 \<and>
            store r2 = store r1 \<and> collection_count (store r2) = collection_count (store r1))"
proof -
  from run1_indexes_all[OF run1 complete]
  have all: "\<forall>x\<in>set entries. \<exists>i. entry_id x = Some i \<and> i \<in> set (collection_ids (store r1))" .
  have ex: "existing_ids e2 (store r1) = collection_ids (store r1)"
    using get2 by (simp add: existing_ids_def)
  have "\<not> list_ex (\<lambda>entry'. entry_id entry' = None) entries"
    using all by (auto simp: list_ex_iff)
  moreover have "filter (\<lambda>entry'. case entry_id entry' of None \<Rightarrow> False
        | Some i \<Rightarrow> i \<notin> set (existing_ids e2 (store r1))) entries = []"
    using all ex by (auto simp: filter_empty_conv)
  ultimately have p2: "entries_to_process e2 (store r1) entries = Inr []"
    by (simp add: entries_to_process_def)
  then have "main_index e2 (store r1) entries =
      Inr \<lparr>store = store r1, calls = [Get], stopped = False\<rparr>"
    by (simp add: main_index_def)
  with p2 show ?thesis by simp
qed

text \<open>Claim C1, an instance: 250 entries indexed into an empty collection, then once more.\<close>

theorem rerun_is_noop_witness:
  "\<exists>r1. main_index (good_env False) [] demo_entries = Inr r1 \<and> \<not> stopped r1 \<and>
      \<not> get_fails (good_env False) \<and>
      main_index (good_env False) (store r1) demo_entries =
        Inr \<lparr>store = store r1, calls = [Get], stopped = False\<rparr>"
proof -
  have p: "entries_to_process (good_env False) [] demo_entries = Inr demo_entries"
    by (rule entries_to_process_all[OF demo_entries_ids])
       (simp add: existing_ids_def collection_ids_def)
  from main_index_completes[OF p batches_ok_good_env]
  obtain r1 where m: "main_index (good_env False) [] demo_entries = Inr r1"
    and ns: "\<not> stopped r1" by blast
  have g: "\<not> get_fails (good_env False)" by (simp add: good_env_def)
  from rerun_is_noop[OF m ns g] obtain r2 where
    m2: "main_index (good_env False) (store r1) demo_entries = Inr r2"
    and c2: "calls r2 = [Get]" and s2: "\<not> stopped r2" and st: "store r2 = store r1"
    by blast
  have "r2 = \<lparr>store = store r1, calls = [Get], stopped = False\<rparr>"
    using c2 s2 st by (cases r2) simp
  with m ns g m2 show ?thesis by blast
qed

text \<open>
  Claim C4. When batch number \<open>j\<close> is the first that fails (the provider raises, answers
  with the wrong number of vectors, or the write raises), the run stops: the provider is
  called for the batches \<open>0\<close> to \<open>j\<close> and for no later one, the writes are those of the
  batches before \<open>j\<close> (and the failed attempt for batch \<open>j\<close> when the provider had
  answered), and the collection holds its former ids and those of the batches before
  \<open>j\<close>. A later run in which \<open>collection.get()\<close> succeeds has as pending exactly the entries
  from batch \<open>j\<close> on whose ids are not in the collection.
\<close>

theorem failed_batch_halts_run:
  assumes p: "entries_to_process e coll entries = Inr pending"
    and j: "j < length (chunks BATCH_SIZE pending)"
    and ok: "batches_ok e 0 (take j (chunks BATCH_SIZE pending))"
    and fail: "\<not> batch_ok e j (chunks BATCH_SIZE pending ! j)"
  shows "\<exists>r. main_index e coll entries = Inr r \<and> stopped r \<and>
           embed_calls (calls r) = map texts_of (take (Suc j) (chunks BATCH_SIZE pending)) \<and>
           add_calls (calls r) =
             map ids_of (take j (chunks BATCH_SIZE pending)) @
             (if embed e j (texts_of (chunks BATCH_SIZE pending ! j)) = None then []
              else [ids_of (chunks BATCH_SIZE pending ! j)]) \<and>
           set (collection_ids (store r)) =
             set (collection_ids coll) \<union> set (ids_of (take (j * BATCH_SIZE) pending)) \<and>
           (\<not> get_fails e2 \<longrightarrow>
              entries_to_process e2 (store r) entries =
                Inr (filter (not_indexed (store r)) (drop (j * BATCH_SIZE) pending)))"
proof -
  let ?init = "\<lparr>store = coll, calls = [Get], stopped = False\<rparr> :: 'a run"
  let ?bs = "chunks BATCH_SIZE pending"
  let ?rb = "run_batches e 0 ?bs ?init"
  let ?res = "?rb\<lparr>calls := calls ?rb @ [Count]\<rparr>"
  let ?bs1 = "take j ?bs"
  let ?b = "?bs ! j"
  let ?bs2 = "drop (Suc j) ?bs"
  note ids = pending_ids[OF p]
  note has = pending_has_ids[OF p, of BATCH_SIZE]
  have ne: "pending \<noteq> []" using j by auto
  have m: "main_index e coll entries = Inr ?res" using main_index_run[OF p] ne by simp
  have split: "?bs = ?bs1 @ ?b # ?bs2" using j by (rule id_take_nth_drop)
  have l1: "length ?bs1 = j" using j by simp
  have fail': "\<not> batch_ok e (0 + length ?bs1) ?b" using fail l1 by simp
  have has1: "\<forall>b\<in>set (?bs1 @ [?b]). \<forall>x\<in>set b. entry_id x \<noteq> None"
  proof -
    have "set (?bs1 @ [?b]) \<subseteq> set ?bs" using j by (auto dest: in_set_takeD)
    with has show ?thesis by blast
  qed
  have has1': "\<forall>b\<in>set ?bs1. \<forall>x\<in>set b. entry_id x \<noteq> None" using has1 by simp
  from run_batches_fail[OF ok fail' has1, of ?bs2 ?init]
  have st: "stopped (run_batches e 0 (?bs1 @ ?b # ?bs2) ?init)"
    and sto: "store (run_batches e 0 (?bs1 @ ?b # ?bs2) ?init) = store (run_batches e 0 ?bs1 ?init)"
    and em: "embed_calls (calls (run_batches e 0 (?bs1 @ ?b # ?bs2) ?init)) =
               embed_calls (calls ?init) @ map texts_of (?bs1 @ [?b])"
    and ad: "add_calls (calls (run_batches e 0 (?bs1 @ ?b # ?bs2) ?init)) =
               add_calls (calls ?init) @ map ids_of ?bs1 @
               (if embed e (0 + length ?bs1) (texts_of ?b) = None then [] else [ids_of ?b])"
    by blast+
  have keys1: "set (collection_ids (store (run_batches e 0 ?bs1 ?init))) =
                 set (collection_ids (store ?init)) \<union> set (ids_of (concat ?bs1))"
    using run_batches_ok[OF ok has1', of ?init] by blast
  have ct: "concat ?bs1 = take (j * BATCH_SIZE) pending"
    by (rule concat_take_chunks) (simp add: BATCH_SIZE_def)
  have tk: "take (Suc j) ?bs = ?bs1 @ [?b]" using j by (rule take_Suc_conv_app_nth)
  have a: "stopped ?res" using st split by simp
  have b: "embed_calls (calls ?res) = map texts_of (take (Suc j) ?bs)"
  proof -
    have "embed_calls (calls ?res) = embed_calls (calls ?rb)" by (simp add: embed_calls_append)
    also have "\<dots> = embed_calls (calls (run_batches e 0 (?bs1 @ ?b # ?bs2) ?init))"
      using split by simp
    also have "\<dots> = map texts_of (?bs1 @ [?b])" using em by simp
    finally show ?thesis using tk by simp
  qed
  have c: "add_calls (calls ?res) = map ids_of ?bs1 @
             (if embed e j (texts_of ?b) = None then [] else [ids_of ?b])"
  proof -
    have "add_calls (calls ?res) = add_calls (calls ?rb)" by (simp add: add_calls_append)
    also have "\<dots> = add_calls (calls (run_batches e 0 (?bs1 @ ?b # ?bs2) ?init))"
      using split by simp
    also have "\<dots> = map ids_of ?bs1 @
             (if embed e (0 + length ?bs1) (texts_of ?b) = None then [] else [ids_of ?b])"
      using ad by simp
    finally show ?thesis using l1 by simp
  qed
  have d: "set (collection_ids (store ?res)) =
             set (collection_ids coll) \<union> set (ids_of (take (j * BATCH_SIZE) pending))"
  proof -
    have "store ?res = store (run_batches e 0 (?bs1 @ ?b # ?bs2) ?init)" using split by simp
    then show ?thesis using sto keys1 ct by simp
  qed
  have f: "\<not> get_fails e2 \<longrightarrow>
              entries_to_process e2 (store ?res) entries =
                Inr (filter (not_indexed (store ?res)) (drop (j * BATCH_SIZE) pending))"
  proof
    assume g2: "\<not> get_fails e2"
    let ?Q = "not_indexed (store ?res)"
    let ?P = "\<lambda>x. case entry_id x of None \<Rightarrow> False | Some i \<Rightarrow> i \<notin> set (existing_ids e coll)"
    have e2p: "entries_to_process e2 (store ?res) entries = Inr (filter ?Q entries)"
      using g2 ids(1) by (rule entries_to_process_get_ok)
    have QP: "\<And>x. ?Q x \<Longrightarrow> ?P x"
    proof -
      fix x assume q: "?Q x"
      then obtain i where i: "entry_id x = Some i" and ni: "i \<notin> set (collection_ids (store ?res))"
        by (auto simp: not_indexed_def split: option.splits)
      have "i \<notin> set (collection_ids coll)" using ni d by blast
      then have "i \<notin> set (existing_ids e coll)" using existing_ids_subset by blast
      with i show "?P x" by simp
    qed
    have "filter ?Q entries = filter ?Q (filter ?P entries)"
      using QP by (auto simp: filter_filter intro!: filter_cong)
    also have "\<dots> = filter ?Q pending" using ids(2) by simp
    also have "\<dots> = filter ?Q (take (j * BATCH_SIZE) pending @ drop (j * BATCH_SIZE) pending)"
      by simp
    also have "\<dots> = filter ?Q (take (j * BATCH_SIZE) pending) @ filter ?Q (drop (j * BATCH_SIZE) pending)"
      by (rule filter_append)
    also have "filter ?Q (take (j * BATCH_SIZE) pending) = []"
    proof -
      have "\<forall>x\<in>set (take (j * BATCH_SIZE) pending). \<not> ?Q x"
      proof
        fix x assume x: "x \<in> set (take (j * BATCH_SIZE) pending)"
        then have "x \<in> set pending" by (rule in_set_takeD)
        then have "x \<in> set entries" using ids(2) by simp
        then obtain i where i: "entry_id x = Some i" using ids(1) by auto
        then have "i \<in> set (ids_of (take (j * BATCH_SIZE) pending))"
          using x by (force simp: ids_of_def get_or_def)
        then have "i \<in> set (collection_ids (store ?res))" using d by blast
        then show "\<not> ?Q x" using i by (simp add: not_indexed_def)
      qed
      then show ?thesis by (simp add: filter_empty_conv)
    qed
    finally have "filter ?Q entries = filter ?Q (drop (j * BATCH_SIZE) pending)" by simp
    with e2p show "entries_to_process e2 (store ?res) entries =
                Inr (filter ?Q (drop (j * BATCH_SIZE) pending))" by simp
  qed
  show ?thesis
    apply (rule exI[of _ ?res])
    apply (intro conjI)
         apply (rule m)
        apply (rule a)
       apply (rule b)
      apply (rule c)
     apply (rule d)
    apply (rule f)
    done
qed

text \<open>
  Claim C4, an instance: 250 entries, the provider raising at the second batch (number 1).
\<close>

theorem failed_batch_halts_run_witness:
  "\<exists>r. main_index (failing_env 1) [] demo_entries = Inr r \<and> stopped r \<and>
      map length (embed_calls (calls r)) = [100, 100] \<and>
      map length (add_calls (calls r)) = [100] \<and>
      set (collection_ids (store r)) = set (ids_of (take 100 demo_entries)) \<and>
      entries_to_process (good_env False) (store r) demo_entries =
        Inr (filter (not_indexed (store r)) (drop 100 demo_entries))"
proof -
  let ?bs = "chunks BATCH_SIZE demo_entries"
  have p: "entries_to_process (failing_env 1) [] demo_entries = Inr demo_entries"
    by (rule entries_to_process_all[OF demo_entries_ids])
       (simp add: existing_ids_def collection_ids_def failing_env_def)
  have ch: "?bs = [take 100 demo_entries, take 100 (drop 100 demo_entries), drop 200 demo_entries]"
    unfolding BATCH_SIZE_def using length_demo_entries by (rule chunks_250)
  have j: "1 < length ?bs" unfolding ch by simp
  have ok: "batches_ok (failing_env 1) 0 (take 1 ?bs)"
    unfolding ch by (simp add: batch_ok_def failing_env_def texts_of_def)
  have fail: "\<not> batch_ok (failing_env 1) 1 (?bs ! 1)"
    by (simp add: batch_ok_def failing_env_def)
  have g: "\<not> get_fails (good_env False)" by (simp add: good_env_def)
  from failed_batch_halts_run[OF p j ok fail, of "good_env False"]
  obtain r where m: "main_index (failing_env 1) [] demo_entries = Inr r" and s: "stopped r"
    and e: "embed_calls (calls r) = map texts_of (take (Suc 1) ?bs)"
    and a: "add_calls (calls r) = map ids_of (take 1 ?bs) @
             (if embed (failing_env 1) 1 (texts_of (?bs ! 1)) = None then []
              else [ids_of (?bs ! 1)])"
    and k: "set (collection_ids (store r)) =
             set (collection_ids ([] :: nat chroma)) \<union>
             set (ids_of (take (1 * BATCH_SIZE) demo_entries))"
    and n0: "\<not> get_fails (good_env False) \<longrightarrow>
              entries_to_process (good_env False) (store r) demo_entries =
                Inr (filter (not_indexed (store r)) (drop (1 * BATCH_SIZE) demo_entries))"
    by (elim exE conjE) (rule that; assumption)
  from n0 g have n: "entries_to_process (good_env False) (store r) demo_entries =
                Inr (filter (not_indexed (store r)) (drop (1 * BATCH_SIZE) demo_entries))"
    by (rule mp)
  have e': "map length (embed_calls (calls r)) = [100, 100]"
    unfolding e ch using length_demo_entries by (simp add: texts_of_def)
  have a': "map length (add_calls (calls r)) = [100]"
    unfolding a ch using length_demo_entries by (simp add: ids_of_def failing_env_def)
  have k': "set (collection_ids (store r)) = set (ids_of (take 100 demo_entries))"
    using k by (simp add: collection_ids_def BATCH_SIZE_def)
  have n': "entries_to_process (good_env False) (store r) demo_entries =
        Inr (filter (not_indexed (store r)) (drop 100 demo_entries))"
    using n by (simp add: BATCH_SIZE_def)
  from m s e' a' k' n' show ?thesis by (intro exI[of _ r] conjI)
qed

text \<open>
  Claim C5. When no batch fails, the run makes, for each batch of 100 pending entries in
  turn, one provider call with the texts of the batch, one write with its ids, and one
  pause; the batches put together are the pending entries. With 250 pending entries
  that is three provider calls with 100, 100 and 50 texts and three writes with 100, 100
  and 50 ids.
\<close>

theorem one_call_and_one_write_per_batch:
  assumes p: "entries_to_process e coll entries = Inr pending"
    and ok: "batches_ok e 0 (chunks BATCH_SIZE pending)"
  shows "\<exists>r. main_index e coll entries = Inr r \<and> \<not> stopped r \<and>
           calls r = Get # concat (map (\<lambda>(k, batch). batch_calls e k batch)
                                    (enumerate 0 (chunks BATCH_SIZE pending))) @
                     (if pending = [] then [] else [Count]) \<and>
           embed_calls (calls r) = map texts_of (chunks BATCH_SIZE pending) \<and>
           add_calls (calls r) = map ids_of (chunks BATCH_SIZE pending) \<and>
           concat (chunks BATCH_SIZE pending) = pending \<and>
           (length pending = 250 \<longrightarrow>
              map length (embed_calls (calls r)) = [100, 100, 50] \<and>
              map length (add_calls (calls r)) = [100, 100, 50])"
proof -
  let ?init = "\<lparr>store = coll, calls = [Get], stopped = False\<rparr> :: 'a run"
  let ?bs = "chunks BATCH_SIZE pending"
  let ?rb = "run_batches e 0 ?bs ?init"
  let ?res = "if pending = [] then ?init else ?rb\<lparr>calls := calls ?rb @ [Count]\<rparr>"
  note has = pending_has_ids[OF p, of BATCH_SIZE]
  have m: "main_index e coll entries = Inr ?res" using main_index_run[OF p] by simp
  have e0: "pending = [] \<Longrightarrow> ?rb = ?init" by simp
  from run_batches_ok[OF ok has, of ?init]
  have st: "\<not> stopped ?rb" and em: "embed_calls (calls ?rb) = map texts_of ?bs"
    and ad: "add_calls (calls ?rb) = map ids_of ?bs" by simp_all
  from run_batches_ok_calls[OF ok has, of ?init]
  have cl: "calls ?rb = Get # concat (map (\<lambda>(k, batch). batch_calls e k batch) (enumerate 0 ?bs))"
    by simp
  have a: "\<not> stopped ?res" using st by simp
  have b: "calls ?res = Get # concat (map (\<lambda>(k, batch). batch_calls e k batch) (enumerate 0 ?bs)) @
                     (if pending = [] then [] else [Count])"
    using cl by simp
  have c: "embed_calls (calls ?res) = map texts_of ?bs"
    using em e0 by (simp add: embed_calls_append)
  have d: "add_calls (calls ?res) = map ids_of ?bs"
    using ad e0 by (simp add: add_calls_append)
  have f: "concat ?bs = pending" by (simp add: concat_chunks BATCH_SIZE_def)
  have g: "length pending = 250 \<longrightarrow>
              map length (embed_calls (calls ?res)) = [100, 100, 50] \<and>
              map length (add_calls (calls ?res)) = [100, 100, 50]"
  proof
    assume l: "length pending = 250"
    have "?bs = [take 100 pending, take 100 (drop 100 pending), drop 200 pending]"
      unfolding BATCH_SIZE_def using l by (rule chunks_250)
    then show "map length (embed_calls (calls ?res)) = [100, 100, 50] \<and>
              map length (add_calls (calls ?res)) = [100, 100, 50]"
      unfolding c d using l by (simp add: texts_of_def ids_of_def)
  qed
  show ?thesis
    apply (rule exI[of _ ?res])
    apply (intro conjI)
          apply (rule m)
         apply (rule a)
        apply (rule b)
       apply (rule c)
      apply (rule d)
     apply (rule f)
    apply (rule g)
    done
qed

text \<open>Claim C5, an instance: 250 entries and an empty collection.\<close>

theorem one_call_and_one_write_per_batch_witness:
  "\<exists>r. main_index (good_env False) [] demo_entries = Inr r \<and> \<not> stopped r \<and>
      length demo_entries = 250 \<and>
      map length (embed_calls (calls r)) = [100, 100, 50] \<and>
      map length (add_calls (calls r)) = [100, 100, 50]"
proof -
  have p: "entries_to_process (good_env False) [] demo_entries = Inr demo_entries"
    by (rule entries_to_process_all[OF demo_entries_ids])
       (simp add: existing_ids_def collection_ids_def)
  from one_call_and_one_write_per_batch[OF p batches_ok_good_env]
  obtain r where m: "main_index (good_env False) [] demo_entries = Inr r"
    and s: "\<not> stopped r"
    and l: "length demo_entries = 250 \<longrightarrow>
              map length (embed_calls (calls r)) = [100, 100, 50] \<and>
              map length (add_calls (calls r)) = [100, 100, 50]"
    by (elim exE conjE) (rule that; assumption)
  from l length_demo_entries
  have "map length (embed_calls (calls r)) = [100, 100, 50]"
    and "map length (add_calls (calls r)) = [100, 100, 50]" by simp_all
  with m s length_demo_entries show ?thesis by (intro exI[of _ r] conjI)
qed

text \<open>
  Claim C10. When \<open>collection.get()\<close> raises and every entry has an id, the run goes on:
  the set of existing ids is empty, every entry is pending, the first batch of the
  corpus is sent to the provider, and when no batch fails every entry is embedded and
  written, those already in the collection included.
\<close>

theorem get_failure_makes_all_pending:
  assumes gf: "get_fails e" and ids: "\<forall>x\<in>set entries. entry_id x \<noteq> None"
  shows "existing_ids e coll = [] \<and>
         entries_to_process e coll entries = Inr entries \<and>
         (\<exists>r. main_index e coll entries = Inr r \<and>
            (entries \<noteq> [] \<longrightarrow>
               prefix [texts_of (take BATCH_SIZE entries)] (embed_calls (calls r))) \<and>
            (batches_ok e 0 (chunks BATCH_SIZE entries) \<longrightarrow>
               \<not> stopped r \<and>
               concat (embed_calls (calls r)) = texts_of entries \<and>
               concat (add_calls (calls r)) = ids_of entries \<and>
               set (ids_of entries) \<subseteq> set (collection_ids (store r))))"
proof -
  let ?init = "\<lparr>store = coll, calls = [Get], stopped = False\<rparr> :: 'a run"
  let ?bs = "chunks BATCH_SIZE entries"
  let ?rb = "run_batches e 0 ?bs ?init"
  let ?res = "if entries = [] then ?init else ?rb\<lparr>calls := calls ?rb @ [Count]\<rparr>"
  have ex: "existing_ids e coll = []" using gf by (simp add: existing_ids_def)
  have "\<not> list_ex (\<lambda>entry'. entry_id entry' = None) entries"
    using ids by (auto simp: list_ex_iff)
  moreover have "filter (\<lambda>entry'. case entry_id entry' of None \<Rightarrow> False
        | Some i \<Rightarrow> i \<notin> set (existing_ids e coll)) entries = entries"
    using ids ex by (auto simp: filter_id_conv)
  ultimately have p: "entries_to_process e coll entries = Inr entries"
    by (simp add: entries_to_process_def)
  note has = pending_has_ids[OF p, of BATCH_SIZE]
  have m: "main_index e coll entries = Inr ?res" using main_index_run[OF p] by simp
  have e0: "entries = [] \<Longrightarrow> ?rb = ?init" by simp
  have first: "entries \<noteq> [] \<longrightarrow> prefix [texts_of (take BATCH_SIZE entries)] (embed_calls (calls ?res))"
  proof
    assume ne: "entries \<noteq> []"
    then have c: "?bs = take BATCH_SIZE entries # chunks BATCH_SIZE (drop BATCH_SIZE entries)"
      by (intro chunks_step) (simp_all add: BATCH_SIZE_def)
    have "prefix (embed_calls (calls ?init) @ [texts_of (take BATCH_SIZE entries)])
            (embed_calls (calls ?rb))"
      unfolding c by (rule run_batches_first_embed)
    then have "prefix [texts_of (take BATCH_SIZE entries)] (embed_calls (calls ?rb))" by simp
    then have "prefix [texts_of (take BATCH_SIZE entries)]
                 (embed_calls (calls ?rb) @ embed_calls [Count :: 'a call])"
      by (rule prefix_prefix)
    then show "prefix [texts_of (take BATCH_SIZE entries)] (embed_calls (calls ?res))"
      using ne by (simp add: embed_calls_append)
  qed
  have all: "batches_ok e 0 ?bs \<longrightarrow>
               \<not> stopped ?res \<and>
               concat (embed_calls (calls ?res)) = texts_of entries \<and>
               concat (add_calls (calls ?res)) = ids_of entries \<and>
               set (ids_of entries) \<subseteq> set (collection_ids (store ?res))"
  proof
    assume ok: "batches_ok e 0 ?bs"
    from run_batches_ok[OF ok has, of ?init]
    have st: "\<not> stopped ?rb" and em: "embed_calls (calls ?rb) = map texts_of ?bs"
      and ad: "add_calls (calls ?rb) = map ids_of ?bs"
      and ks: "set (collection_ids (store ?rb)) = set (collection_ids coll) \<union> set (ids_of (concat ?bs))"
      by simp_all
    have cc: "concat ?bs = entries" by (simp add: concat_chunks BATCH_SIZE_def)
    have ct: "concat (map texts_of ?bs) = texts_of entries"
      using cc by (simp add: concat_map_texts_of)
    have ci: "concat (map ids_of ?bs) = ids_of entries"
      using cc by (simp add: concat_map_ids_of)
    show "\<not> stopped ?res \<and>
               concat (embed_calls (calls ?res)) = texts_of entries \<and>
               concat (add_calls (calls ?res)) = ids_of entries \<and>
               set (ids_of entries) \<subseteq> set (collection_ids (store ?res))"
    proof (cases "entries = []")
      case True
      then show ?thesis by (simp add: texts_of_def ids_of_def)
    next
      case False
      then show ?thesis using st em ad ks cc ct ci
        by (simp add: embed_calls_append add_calls_append)
    qed
  qed
  from ex p m first all show ?thesis by blast
qed

text \<open>
  Claim C10, an instance: a collection that already holds \<open>demo_0\<close>, and the entries
  \<open>demo_0\<close> and \<open>demo_1\<close>.
\<close>

theorem get_failure_makes_all_pending_witness:
  "collection_ids [(str ''demo_0'', (4 :: nat, str ''Yes.'', []))] = ids_of [demo_entry 0] \<and>
   existing_ids (good_env True) [(str ''demo_0'', (4, str ''Yes.'', []))] = [] \<and>
   entries_to_process (good_env True) [(str ''demo_0'', (4, str ''Yes.'', []))]
     [demo_entry 0, demo_entry 1] = Inr [demo_entry 0, demo_entry 1] \<and>
   (\<exists>r. main_index (good_env True) [(str ''demo_0'', (4, str ''Yes.'', []))]
           [demo_entry 0, demo_entry 1] = Inr r \<and> \<not> stopped r \<and>
        concat (embed_calls (calls r)) = texts_of [demo_entry 0, demo_entry 1] \<and>
        concat (add_calls (calls r)) = ids_of [demo_entry 0, demo_entry 1])"
proof -
  have g: "get_fails (good_env True)" by (simp add: good_env_def)
  have i: "\<forall>x\<in>set [demo_entry 0, demo_entry 1]. entry_id x \<noteq> None"
    by (simp add: demo_entry_def)
  have c: "collection_ids [(str ''demo_0'', (4 :: nat, str ''Yes.'', []))] = ids_of [demo_entry 0]"
    by (simp add: collection_ids_def ids_of_def demo_entry_def get_or_def str_nat.simps)
  let ?coll = "[(str ''demo_0'', (4 :: nat, str ''Yes.'', []))]"
  let ?es = "[demo_entry 0, demo_entry 1]"
  from get_failure_makes_all_pending[OF g i, of ?coll]
  obtain r where x: "existing_ids (good_env True) ?coll = []"
    and p: "entries_to_process (good_env True) ?coll ?es = Inr ?es"
    and m: "main_index (good_env True) ?coll ?es = Inr r"
    and imp: "batches_ok (good_env True) 0 (chunks BATCH_SIZE ?es) \<longrightarrow>
               \<not> stopped r \<and>
               concat (embed_calls (calls r)) = texts_of ?es \<and>
               concat (add_calls (calls r)) = ids_of ?es \<and>
               set (ids_of ?es) \<subseteq> set (collection_ids (store r))"
    by (elim exE conjE) (rule that; assumption)
  from imp batches_ok_good_env
  have ns: "\<not> stopped r" and ce: "concat (embed_calls (calls r)) = texts_of ?es"
    and ca: "concat (add_calls (calls r)) = ids_of ?es" by blast+
  from m ns ce ca have "\<exists>r. main_index (good_env True) ?coll ?es = Inr r \<and> \<not> stopped r \<and>
        concat (embed_calls (calls r)) = texts_of ?es \<and>
        concat (add_calls (calls r)) = ids_of ?es"
    by (intro exI[of _ r] conjI)
  with c x p show ?thesis by (intro conjI)
qed

end
